theory Spec2Isabelle
  imports Main
begin

section \<open>Strings as the crawler uses them\<close>

text \<open>
  JavaScript strings are modelled as \<open>string\<close> (the UTF-8 bytes of the text). Every
  pattern the crawler looks for is ASCII, and an ASCII byte never occurs inside the
  encoding of another character, so prefix tests and the regular expressions below
  agree with the JavaScript ones.
\<close>

text \<open>\<^verbatim>\<open>s.startsWith(p)\<close>\<close>

definition startsWith :: "string \<Rightarrow> string \<Rightarrow> bool" where
  "startsWith s p = (take (length p) s = p)"

text \<open>\<^verbatim>\<open>s.includes(p)\<close>\<close>

fun includesStr :: "string \<Rightarrow> string \<Rightarrow> bool" where
  "includesStr [] p = (p = [])"
| "includesStr (c # s) p = (startsWith (c # s) p \<or> includesStr s p)"

text \<open>\<^verbatim>\<open>s.split(c)\<close> for a one-character separator: never the empty list.\<close>

fun splitOn :: "char \<Rightarrow> string \<Rightarrow> string list" where
  "splitOn c [] = [[]]"
| "splitOn c (x # xs) =
     (if x = c then [] # splitOn c xs
      else (case splitOn c xs of
              [] \<Rightarrow> [[x]]
            | w # ws \<Rightarrow> (x # w) # ws))"

text \<open>\<^verbatim>\<open>parts.join(c)\<close>\<close>

fun joinWith :: "char \<Rightarrow> string list \<Rightarrow> string" where
  "joinWith c [] = []"
| "joinWith c [w] = w"
| "joinWith c (w # v # ws) = w @ c # joinWith c (v # ws)"

text \<open>\<^verbatim>\<open>url.replace(/\/$/, '')\<close>: one slash at the very end is removed.\<close>

definition stripTrailingSlash :: "string \<Rightarrow> string" where
  "stripTrailingSlash s = (if s \<noteq> [] \<and> last s = CHR ''/'' then butlast s else s)"

text \<open>\<^verbatim>\<open>url.split('#')[0]\<close>\<close>

definition beforeHash :: "string \<Rightarrow> string" where
  "beforeHash s = (case splitOn CHR ''#'' s of [] \<Rightarrow> s | x # _ \<Rightarrow> x)"

text \<open>
  The regular expressions of \<open>getAssetType\<close> all have the shape
  \<^verbatim>\<open>/\.(e1|e2|...)($|\?)/i\<close>: somewhere in the string there is a dot, then one of the
  extensions in either case, then the end of the string or a question mark.
\<close>

definition lowerChar :: "char \<Rightarrow> char" where
  "lowerChar c =
     (case map_of (zip ''ABCDEFGHIJKLMNOPQRSTUVWXYZ'' ''abcdefghijklmnopqrstuvwxyz'') c of
        Some l \<Rightarrow> l
      | None \<Rightarrow> c)"

definition extAt :: "string list \<Rightarrow> string \<Rightarrow> bool" where
  "extAt exts s =
     (case s of
        [] \<Rightarrow> False
      | c # r \<Rightarrow>
          c = CHR ''.'' \<and>
          list_ex (\<lambda>e. map lowerChar (take (length e) r) = e \<and>
                        (case drop (length e) r of [] \<Rightarrow> True | d # _ \<Rightarrow> d = CHR ''?''))
                  exts)"

fun matchesExt :: "string list \<Rightarrow> string \<Rightarrow> bool" where
  "matchesExt exts [] = False"
| "matchesExt exts (c # r) = (extAt exts (c # r) \<or> matchesExt exts r)"

section \<open>Configuration and the URL libraries\<close>

text \<open>
  The crawler parses URLs with two libraries that are not part of the repository:
  \<open>url-parse\<close> (\<^verbatim>\<open>new URLParse(u)\<close>, of which it reads \<open>protocol\<close> and \<open>hostname\<close>)
  and Node's \<open>URL\<close> class (of which it reads \<open>pathname\<close>, and which it uses to delete
  the five \<open>utm_\<close> parameters and print the URL again). They are parameters of the
  model; \<open>None\<close> stands for a constructor that throws.
\<close>

record parsed =
  protocol :: string
  hostname :: string

record urllib =
  URLParse :: "string \<Rightarrow> parsed option"
  URL_pathname :: "string \<Rightarrow> string option"
  URL_withoutUtm :: "string \<Rightarrow> string option"

text \<open>
  The \<open>config\<close> object, restricted to the fields the crawl logic reads. The numbers are
  integers (\<open>parseInt\<close> of a numeral).
\<close>

record config =
  websiteUrl :: string
  maxDepth :: int
  concurrency :: int
  skipDataImages :: bool
  excludePatterns :: "string list"

text \<open>
  A loaded crawler: the libraries, the configuration and the two module-level
  constants \<open>baseDomain\<close> and \<open>baseProtocol\<close> that are read off the seed URL once.
\<close>

record crawler =
  lib :: urllib
  config :: config
  baseDomain :: string
  baseProtocol :: string

definition load :: "urllib \<Rightarrow> config \<Rightarrow> crawler option" where
  "load L cfg =
     (case URLParse L (websiteUrl cfg) of
        None \<Rightarrow> None
      | Some baseUrl \<Rightarrow>
          Some \<lparr>lib = L, config = cfg,
                baseDomain = hostname baseUrl, baseProtocol = protocol baseUrl\<rparr>)"

datatype assetType = LINK | CSS | SCRIPT | IMAGE | OTHER

fun typeName :: "assetType \<Rightarrow> string" where
  "typeName LINK = ''link''"
| "typeName CSS = ''css''"
| "typeName SCRIPT = ''script''"
| "typeName IMAGE = ''image''"
| "typeName OTHER = ''other''"

section \<open>The pure functions of the crawler\<close>

definition isInboundLink :: "crawler \<Rightarrow> string \<Rightarrow> bool" where
  "isInboundLink K url =
     (case URLParse (lib K) url of
        None \<Rightarrow> False
      | Some parsedUrl \<Rightarrow> hostname parsedUrl = baseDomain K)"

text \<open>
  \<open>normalizeUrl\<close>. The outer \<^verbatim>\<open>try\<close> of the source guards string methods only, which do
  not throw on strings; the inner one falls back to the URL as it stands when Node's
  \<open>URL\<close> constructor throws.
\<close>

definition normalizeUrl :: "crawler \<Rightarrow> string \<Rightarrow> string \<Rightarrow> string" where
  "normalizeUrl K url baseUrl =
     (let url1 = (if startsWith url ''//'' then ''https:'' @ url else url);
          url2 = (if startsWith url1 ''/'' then baseProtocol K @ ''//'' @ baseDomain K @ url1
                  else if \<not> startsWith url1 ''http''
                  then joinWith CHR ''/'' (butlast (splitOn CHR ''/'' baseUrl)) @ ''/'' @ url1
                  else url1);
          url3 = stripTrailingSlash url2;
          url4 = beforeHash url3
      in case URL_withoutUtm (lib K) url4 of
           Some href \<Rightarrow> href
         | None \<Rightarrow> url4)"

definition imageExts :: "string list" where
  "imageExts = [''jpg'', ''jpeg'', ''png'', ''gif'', ''svg'', ''webp'', ''ico'']"

definition getAssetType :: "string \<Rightarrow> string \<Rightarrow> assetType" where
  "getAssetType url tag =
     (if tag = ''a'' then LINK
      else if tag = ''link'' \<and> matchesExt [''css''] url then CSS
      else if tag = ''script'' then SCRIPT
      else if tag = ''img'' then IMAGE
      else if matchesExt imageExts url then IMAGE
      else if matchesExt [''css''] url then CSS
      else if matchesExt [''js''] url then SCRIPT
      else OTHER)"

definition fixProtocolRelativeUrl :: "string \<Rightarrow> string" where
  "fixProtocolRelativeUrl url = (if startsWith url ''//'' then ''https:'' @ url else url)"

definition isUrlExcluded :: "crawler \<Rightarrow> string \<Rightarrow> bool" where
  "isUrlExcluded K url =
     (if excludePatterns (config K) = [] then False
      else (case URL_pathname (lib K) url of
              None \<Rightarrow> False
            | Some pathname \<Rightarrow>
                list_ex (\<lambda>pattern. startsWith pathname pattern) (excludePatterns (config K))))"

definition shouldCrawlUrl :: "crawler \<Rightarrow> string \<Rightarrow> int \<Rightarrow> bool" where
  "shouldCrawlUrl K url depth =
     (if depth > maxDepth (config K) then False
      else if skipDataImages (config K) \<and> startsWith url ''data:image'' then False
      else if isUrlExcluded K url then False
      else True)"

section \<open>The classifier as the specification words it\<close>

text \<open>
  The specification speaks of a URL with a \<open>.css\<close> suffix and of the extension of the
  file name. A text ends with another one when that one is its tail. A URL has the
  suffix \<open>.ext\<close> when it ends with a dot and the extension, in either case of the
  letters, as it stands or with a query cut off, that is to say cut before a question
  mark.
\<close>

definition endsWith :: "string \<Rightarrow> string \<Rightarrow> bool" where
  "endsWith s p = (length p \<le> length s \<and> drop (length s - length p) s = p)"

definition withoutQuery :: "string \<Rightarrow> string list" where
  "withoutQuery u = u # map (\<lambda>n. take n u) (filter (\<lambda>n. u ! n = CHR ''?'') [0..<length u])"

definition hasSuffix :: "string \<Rightarrow> string \<Rightarrow> bool" where
  "hasSuffix u ext = list_ex (\<lambda>s. endsWith (map lowerChar s) (CHR ''.'' # ext)) (withoutQuery u)"

definition sniffExtension :: "string \<Rightarrow> assetType" where
  "sniffExtension u =
     (if list_ex (hasSuffix u) [''jpg'', ''jpeg'', ''png'', ''gif'', ''svg'', ''webp'', ''ico''] then IMAGE
      else if hasSuffix u ''css'' then CSS
      else if hasSuffix u ''js'' then SCRIPT
      else OTHER)"

definition classify :: "string \<Rightarrow> string \<Rightarrow> assetType" where
  "classify u tagKind =
     (if tagKind = ''a'' then LINK
      else if tagKind = ''script'' then SCRIPT
      else if tagKind = ''img'' then IMAGE
      else if tagKind = ''link'' \<and> hasSuffix u ''css'' then CSS
      else sniffExtension u)"

section \<open>The result store\<close>

text \<open>
  Values of the JavaScript objects handed to \<open>storeResult\<close>. \<open>Num n\<close> in a stored hash
  stands for the decimal text of \<open>n\<close> and \<open>Json xs\<close> for the text
  \<^verbatim>\<open>JSON.stringify(xs)\<close>; a field that is absent from an object is \<open>undefined\<close>.
\<close>

datatype jsval = Str string | Num int | Null | Arr "string list" | Json "string list"

type_synonym object = "string \<rightharpoonup> jsval"

text \<open>What \<open>storeResult\<close> writes for a value: the empty text for \<open>null\<close>, else \<^verbatim>\<open>String(value)\<close>.\<close>

fun stringOf :: "jsval \<Rightarrow> jsval" where
  "stringOf Null = Str []"
| "stringOf (Arr xs) = Str (joinWith CHR '','' xs)"
| "stringOf v = v"

text \<open>
  The Redis database under the key prefix: the hash of each URL, the set \<open>all_urls\<close>,
  the sets \<open>sources:<url>\<close>, \<open>type:<type>\<close> and \<open>status:<status>\<close>. The keys are the
  Base64 text of the URLs in the source, which is one-to-one, so the URLs themselves are
  the keys here. Redis commands are taken to succeed.
\<close>

record store =
  hashes :: "string \<rightharpoonup> object"
  all_urls :: "string set"
  sources :: "string \<Rightarrow> string set"
  typeIndex :: "string \<Rightarrow> string set"
  statusIndex :: "jsval \<Rightarrow> string set"

definition emptyStore :: store where
  "emptyStore =
     \<lparr>hashes = Map.empty, all_urls = {}, sources = (\<lambda>_. {}),
      typeIndex = (\<lambda>_. {}), statusIndex = (\<lambda>_. {})\<rparr>"

text \<open>
  The Redis commands of \<open>storeResult\<close>, one function each:
  \<^verbatim>\<open>hSet(key, fields)\<close>, which adds the fields to the hash and overwrites those it has;
  \<^verbatim>\<open>sAdd(all_urls, url)\<close>; \<^verbatim>\<open>sAdd(sources:<url>, page)\<close>;
  \<^verbatim>\<open>sAdd(type:<type>, url)\<close>; \<^verbatim>\<open>sAdd(status:<status>, url)\<close>.
\<close>

definition hSet :: "string \<Rightarrow> object \<Rightarrow> store \<Rightarrow> store" where
  "hSet key fs R =
     R\<lparr>hashes := (hashes R)(key \<mapsto>
          (case hashes R key of None \<Rightarrow> fs | Some h \<Rightarrow> h ++ fs))\<rparr>"

definition addUrl :: "string \<Rightarrow> store \<Rightarrow> store" where
  "addUrl u R = R\<lparr>all_urls := insert u (all_urls R)\<rparr>"

definition addSource :: "string \<Rightarrow> string \<Rightarrow> store \<Rightarrow> store" where
  "addSource u page R = R\<lparr>sources := (sources R)(u := insert page (sources R u))\<rparr>"

definition addType :: "string \<Rightarrow> string \<Rightarrow> store \<Rightarrow> store" where
  "addType t u R = R\<lparr>typeIndex := (typeIndex R)(t := insert u (typeIndex R t))\<rparr>"

definition addStatus :: "jsval \<Rightarrow> string \<Rightarrow> store \<Rightarrow> store" where
  "addStatus st u R = R\<lparr>statusIndex := (statusIndex R)(st := insert u (statusIndex R st))\<rparr>"

text \<open>The loop over \<open>data.sourcePages\<close> when that is an array: empty entries are skipped.\<close>

fun addSourcePages :: "string \<Rightarrow> string list \<Rightarrow> store \<Rightarrow> store" where
  "addSourcePages u [] R = R"
| "addSourcePages u (sourcePage # ps) R =
     addSourcePages u ps (if sourcePage \<noteq> [] then addSource u sourcePage R else R)"

text \<open>
  The steps of \<open>storeResult\<close> that depend on a field of \<open>data\<close>. Every caller passes
  texts for \<open>referrer\<close> and \<open>type\<close>, a number (or nothing) for \<open>status\<close>, and the JSON text
  of the source pages, which is not an array.
\<close>

definition withStatus :: "object \<Rightarrow> object" where
  "withStatus data =
     (if data ''status'' = None \<or> data ''status'' = Some Null
      then data(''status'' \<mapsto> Num 0) else data)"

definition processedData :: "object \<Rightarrow> object" where
  "processedData data = (\<lambda>field. map_option stringOf (data field))"

definition storeReferrer :: "string \<Rightarrow> object \<Rightarrow> store \<Rightarrow> store" where
  "storeReferrer u data R =
     (case data ''referrer'' of
        Some (Str r) \<Rightarrow> if r \<noteq> [] then addSource u r R else R
      | _ \<Rightarrow> R)"

definition storeSourcePages :: "string \<Rightarrow> object \<Rightarrow> store \<Rightarrow> store" where
  "storeSourcePages u data R =
     (case data ''sourcePages'' of
        Some (Arr ps) \<Rightarrow> addSourcePages u ps R
      | _ \<Rightarrow> R)"

definition storeType :: "string \<Rightarrow> object \<Rightarrow> store \<Rightarrow> store" where
  "storeType u data R =
     (case data ''type'' of
        Some (Str t) \<Rightarrow> if t \<noteq> [] then addType t u R else R
      | _ \<Rightarrow> R)"

definition storeStatus :: "string \<Rightarrow> object \<Rightarrow> store \<Rightarrow> store" where
  "storeStatus u data R =
     (case data ''status'' of
        Some st \<Rightarrow> addStatus st u R
      | None \<Rightarrow> R)"

text \<open>The body of \<open>storeResult\<close> once the URL is fixed and the status has its default.\<close>

definition storeFields :: "string \<Rightarrow> object \<Rightarrow> store \<Rightarrow> store" where
  "storeFields u data R =
     storeStatus u data
       (storeType u data
         (storeSourcePages u data
           (storeReferrer u data
             (addUrl u
               (hSet u (processedData data) R)))))"

definition storeResult :: "string \<Rightarrow> object \<Rightarrow> store \<Rightarrow> store" where
  "storeResult url0 data0 R = storeFields (fixProtocolRelativeUrl url0) (withStatus data0) R"

section \<open>Pages and links\<close>

text \<open>
  A parsed page as \<open>extractLinks\<close> queries it: the \<open>href\<close> and text of every \<open>a\<close>
  element, the \<open>href\<close> of every stylesheet \<open>link\<close>, the \<open>src\<close> of every \<open>script\<close>, the
  \<open>src\<close> and \<open>alt\<close> of every \<open>img\<close>, in document order. A missing attribute is \<open>None\<close>.
\<close>

record document =
  anchors :: "(string option \<times> string) list"
  stylesheets :: "string option list"
  scripts :: "string option list"
  images :: "(string option \<times> string option) list"

text \<open>An extracted link; \<open>text\<close> and \<open>alt\<close> are empty where the source leaves them undefined.\<close>

record link =
  l_url :: string
  l_tag :: string
  l_text :: string
  l_alt :: string

definition extractLinks :: "crawler \<Rightarrow> document \<Rightarrow> string \<Rightarrow> link list" where
  "extractLinks K doc baseUrl =
     concat (map (\<lambda>(href, txt).
        case href of
          None \<Rightarrow> []
        | Some h \<Rightarrow>
            if h \<noteq> [] \<and> \<not> startsWith h ''javascript:'' \<and> \<not> startsWith h ''mailto:''
               \<and> \<not> startsWith h ''tel:'' \<and> \<not> startsWith h ''data:image''
            then [\<lparr>l_url = normalizeUrl K h baseUrl, l_tag = ''a'', l_text = txt, l_alt = []\<rparr>]
            else []) (anchors doc))
     @ concat (map (\<lambda>href.
        case href of
          None \<Rightarrow> []
        | Some h \<Rightarrow>
            if h \<noteq> []
            then [\<lparr>l_url = normalizeUrl K h baseUrl, l_tag = ''link'', l_text = [], l_alt = []\<rparr>]
            else []) (stylesheets doc))
     @ concat (map (\<lambda>src.
        case src of
          None \<Rightarrow> []
        | Some h \<Rightarrow>
            if h \<noteq> []
            then [\<lparr>l_url = normalizeUrl K h baseUrl, l_tag = ''script'', l_text = [], l_alt = []\<rparr>]
            else []) (scripts doc))
     @ concat (map (\<lambda>(src, alt).
        case src of
          None \<Rightarrow> []
        | Some h \<Rightarrow>
            if h \<noteq> [] \<and> \<not> startsWith h ''data:image''
            then [\<lparr>l_url = normalizeUrl K h baseUrl, l_tag = ''img'', l_text = [],
                   l_alt = (case alt of None \<Rightarrow> [] | Some a \<Rightarrow> a)\<rparr>]
            else []) (images doc))"

section \<open>The crawl as a state machine\<close>

text \<open>A queue entry: \<open>{url, referrer, depth, sourcePages}\<close>.\<close>

record item =
  url :: string
  referrer :: string
  depth :: int
  sourcePages :: "string list"

datatype httpMethod = GET | HEAD

text \<open>
  What the HTTP client hands back: a response (any status is one, the client is told
  not to throw on a status) or an exception, which may carry the status of a response.
\<close>

record response =
  status :: int
  responseUrl :: "string option"
  contentTypeHeader :: "string option"
  body :: document

record failure =
  responseStatus :: "int option"
  message :: string

text \<open>
  A network request is either the first one of a \<open>checkUrl\<close> call or the second one,
  the GET that follows a HEAD answered with an HTML content type.
\<close>

datatype request = Initial httpMethod string | Escalated string

text \<open>
  \<open>checkUrl\<close> is an asynchronous function: it runs until it waits for something and
  other tasks run in between. A task is the queue entry it was started with and the
  point where it waits: before the visited check (\<open>Start\<close>, the \<^verbatim>\<open>await\<close> of
  \<open>shouldCrawlUrl\<close>), for the answer to its first request, for the answer to its second
  request (holding the first answer), or inside the loop over the extracted links
  (holding the links still to do, the \<^verbatim>\<open>await\<close> of \<open>storeResult\<close> in the loop). What a
  task does between two such points is one step; the Redis commands of one
  \<open>storeResult\<close> call are taken together.
\<close>

datatype pc = Start | AwaitResponse httpMethod | AwaitFull response | Extract "link list" | Finished

type_synonym task = "item \<times> pc"

text \<open>
  The module's variables \<open>queue\<close>, \<open>activeTasks\<close> and \<open>visitedUrls\<close>, the database, the
  tasks started so far, the number of \<^verbatim>\<open>setTimeout(processQueue, 0)\<close> timers that have
  not fired yet, and two observations: the network requests issued and the number of
  calls of \<open>generateCrawlSummary\<close>.
\<close>

record state =
  queue :: "item list"
  activeTasks :: int
  visitedUrls :: "string set"
  redis :: store
  tasks :: "task list"
  timers :: nat
  net :: "request list"
  summaries :: nat

text \<open>
  \<open>main\<close>: the seed is queued and \<open>processQueue\<close> is about to run once (counted as a
  timer). The database is empty at the start.
\<close>

definition init :: "crawler \<Rightarrow> state" where
  "init K =
     \<lparr>queue = [\<lparr>url = websiteUrl (config K), referrer = [], depth = 0, sourcePages = []\<rparr>],
      activeTasks = 0, visitedUrls = {}, redis = emptyStore, tasks = [],
      timers = 1, net = [], summaries = 0\<rparr>"

text \<open>The \<^verbatim>\<open>while\<close> loop of \<open>processQueue\<close>: tasks are started until the limit is reached.\<close>

fun fill :: "int \<Rightarrow> item list \<Rightarrow> int \<Rightarrow> task list \<Rightarrow> item list \<times> int \<times> task list" where
  "fill C [] a ts = ([], a, ts)"
| "fill C (x # q) a ts =
     (if a < C then fill C q (a + 1) (ts @ [(x, Start)]) else (x # q, a, ts))"

definition processQueue :: "crawler \<Rightarrow> state \<Rightarrow> state" where
  "processQueue K s =
     (if queue s = [] \<and> activeTasks s = 0 then s\<lparr>summaries := Suc (summaries s)\<rparr>
      else (case fill (concurrency (config K)) (queue s) (activeTasks s) (tasks s) of
              (q, a, ts) \<Rightarrow> s\<lparr>queue := q, activeTasks := a, tasks := ts\<rparr>))"

text \<open>The \<^verbatim>\<open>finally\<close> callback of a task: one task less, one more timer.\<close>

definition finish :: "nat \<Rightarrow> item \<Rightarrow> state \<Rightarrow> state" where
  "finish i it s =
     s\<lparr>tasks := (tasks s)[i := (it, Finished)],
       activeTasks := activeTasks s - 1,
       timers := Suc (timers s)\<rparr>"

definition dataImageRecord :: "item \<Rightarrow> string \<Rightarrow> object" where
  "dataImageRecord it now =
     [''url'' \<mapsto> Str (take 100 (url it) @ ''... (truncated)''),
      ''originalUrl'' \<mapsto> Str (url it),
      ''status'' \<mapsto> Num 200,
      ''contentType'' \<mapsto> Str ''image/embedded'',
      ''finalUrl'' \<mapsto> Str (url it),
      ''isRedirect'' \<mapsto> Num 0,
      ''referrer'' \<mapsto> Str (referrer it),
      ''depth'' \<mapsto> Num (depth it),
      ''type'' \<mapsto> Str (typeName IMAGE),
      ''checkedAt'' \<mapsto> Str now,
      ''isInbound'' \<mapsto> Num 1,
      ''isDataImage'' \<mapsto> Num 1,
      ''sourcePages'' \<mapsto> Json (sourcePages it)]"

text \<open>
  \<open>checkUrl\<close> from its start to its first request: the admission check, the visited
  check (a visited URL only gets the referrer added to its sources), the claim of the
  URL, the branch for data URLs, the request.
\<close>

definition mergeReferrer :: "item \<Rightarrow> state \<Rightarrow> state" where
  "mergeReferrer it s =
     (if referrer it \<noteq> [] then s\<lparr>redis := addSource (url it) (referrer it) (redis s)\<rparr> else s)"

definition claim :: "item \<Rightarrow> state \<Rightarrow> state" where
  "claim it s = s\<lparr>visitedUrls := insert (url it) (visitedUrls s)\<rparr>"

definition storeIn :: "string \<Rightarrow> object \<Rightarrow> state \<Rightarrow> state" where
  "storeIn u data s = s\<lparr>redis := storeResult u data (redis s)\<rparr>"

definition initialMethod :: "string \<Rightarrow> httpMethod" where
  "initialMethod u = (if getAssetType u [] = LINK then GET else HEAD)"

definition request :: "nat \<Rightarrow> item \<Rightarrow> state \<Rightarrow> state" where
  "request i it s =
     s\<lparr>net := net s @ [Initial (initialMethod (url it)) (url it)],
       tasks := (tasks s)[i := (it, AwaitResponse (initialMethod (url it)))]\<rparr>"

definition resume :: "crawler \<Rightarrow> nat \<Rightarrow> item \<Rightarrow> string \<Rightarrow> state \<Rightarrow> state" where
  "resume K i it now s =
     (if \<not> shouldCrawlUrl K (url it) (depth it) then finish i it s
      else if url it \<in> visitedUrls s then finish i it (mergeReferrer it s)
      else if startsWith (url it) ''data:image'' \<and> skipDataImages (config K)
      then finish i it (storeIn (url it) (dataImageRecord it now) (claim it s))
      else request i it (claim it s))"

definition contentTypeOf :: "response \<Rightarrow> string" where
  "contentTypeOf r = (case contentTypeHeader r of None \<Rightarrow> [] | Some c \<Rightarrow> c)"

definition finalUrlOf :: "response \<Rightarrow> string \<Rightarrow> string" where
  "finalUrlOf r u = (case responseUrl r of None \<Rightarrow> u | Some f \<Rightarrow> if f \<noteq> [] then f else u)"

definition isHtmlResponse :: "response \<Rightarrow> bool" where
  "isHtmlResponse r = includesStr (contentTypeOf r) ''text/html''"

definition resultRecord :: "crawler \<Rightarrow> item \<Rightarrow> response \<Rightarrow> string \<Rightarrow> object" where
  "resultRecord K it r now =
     [''url'' \<mapsto> Str (url it),
      ''status'' \<mapsto> Num (status r),
      ''contentType'' \<mapsto> Str (contentTypeOf r),
      ''finalUrl'' \<mapsto> Str (finalUrlOf r (url it)),
      ''isRedirect'' \<mapsto> Num (if finalUrlOf r (url it) \<noteq> url it then 1 else 0),
      ''referrer'' \<mapsto> Str (referrer it),
      ''depth'' \<mapsto> Num (depth it),
      ''type'' \<mapsto> Str (typeName (if isHtmlResponse r then LINK else getAssetType (url it) [])),
      ''checkedAt'' \<mapsto> Str now,
      ''isInbound'' \<mapsto> Num (if isInboundLink K (url it) then 1 else 0),
      ''sourcePages'' \<mapsto> Json (sourcePages it)]"

definition errorRecord :: "crawler \<Rightarrow> item \<Rightarrow> failure \<Rightarrow> string \<Rightarrow> object" where
  "errorRecord K it e now =
     [''url'' \<mapsto> Str (url it),
      ''status'' \<mapsto> Num (case responseStatus e of None \<Rightarrow> 0 | Some c \<Rightarrow> if c \<noteq> 0 then c else 0),
      ''error'' \<mapsto> Str (message e),
      ''referrer'' \<mapsto> Str (referrer it),
      ''depth'' \<mapsto> Num (depth it),
      ''type'' \<mapsto> Str (typeName (getAssetType (url it) [])),
      ''checkedAt'' \<mapsto> Str now,
      ''isInbound'' \<mapsto> Num (if isInboundLink K (url it) then 1 else 0),
      ''sourcePages'' \<mapsto> Json (sourcePages it)]"

definition stubRecord :: "crawler \<Rightarrow> item \<Rightarrow> link \<Rightarrow> object" where
  "stubRecord K it l =
     [''url'' \<mapsto> Str (l_url l),
      ''referrer'' \<mapsto> Str (url it),
      ''type'' \<mapsto> Str (typeName (getAssetType (l_url l) (l_tag l))),
      ''isInbound'' \<mapsto> Num (if isInboundLink K (l_url l) then 1 else 0),
      ''tag'' \<mapsto> Str (l_tag l),
      ''text'' \<mapsto> Str (l_text l),
      ''alt'' \<mapsto> Str (l_alt l),
      ''checkedAt'' \<mapsto> Null,
      ''sourcePages'' \<mapsto> Json (sourcePages it @ [url it])]"

text \<open>
  \<open>checkUrl\<close> once the page is at hand: the result is stored, and if the page is HTML,
  inbound and above the depth limit its links are extracted and the loop begins.
\<close>

definition startLoop :: "nat \<Rightarrow> item \<Rightarrow> link list \<Rightarrow> state \<Rightarrow> state" where
  "startLoop i it links s =
     (case links of
        [] \<Rightarrow> finish i it s
      | l # ls \<Rightarrow> s\<lparr>tasks := (tasks s)[i := (it, Extract (l # ls))]\<rparr>)"

definition afterFetch :: "crawler \<Rightarrow> nat \<Rightarrow> item \<Rightarrow> response \<Rightarrow> string \<Rightarrow> state \<Rightarrow> state" where
  "afterFetch K i it r now s =
     (if isHtmlResponse r \<and> isInboundLink K (url it) \<and> depth it < maxDepth (config K)
      then startLoop i it (extractLinks K (body r) (url it))
             (storeIn (url it) (resultRecord K it r now) s)
      else finish i it (storeIn (url it) (resultRecord K it r now) s))"

text \<open>The answer to the first request arrives.\<close>

definition respond :: "crawler \<Rightarrow> nat \<Rightarrow> item \<Rightarrow> httpMethod \<Rightarrow> response \<Rightarrow> string \<Rightarrow> state \<Rightarrow> state" where
  "respond K i it m r now s =
     (if m \<noteq> GET \<and> isHtmlResponse r \<and> isInboundLink K (url it) \<and> depth it < maxDepth (config K)
      then s\<lparr>net := net s @ [Escalated (url it)],
             tasks := (tasks s)[i := (it, AwaitFull r)]\<rparr>
      else afterFetch K i it r now s)"

text \<open>The answer to the second request arrives: its body replaces the first one's.\<close>

definition respondFull :: "crawler \<Rightarrow> nat \<Rightarrow> item \<Rightarrow> response \<Rightarrow> response \<Rightarrow> string \<Rightarrow> state \<Rightarrow> state" where
  "respondFull K i it r fullResponse now s = afterFetch K i it (r\<lparr>body := body fullResponse\<rparr>) now s"

text \<open>A request throws: the \<^verbatim>\<open>catch\<close> block.\<close>

definition fail :: "crawler \<Rightarrow> nat \<Rightarrow> item \<Rightarrow> failure \<Rightarrow> string \<Rightarrow> state \<Rightarrow> state" where
  "fail K i it e now s = finish i it (storeIn (url it) (errorRecord K it e now) s)"

text \<open>
  One round of the loop over the extracted links: the link is queued if its URL is not
  visited (one level deeper when inbound, at the depth limit when outbound), and its
  record is stored.
\<close>

definition push :: "crawler \<Rightarrow> item \<Rightarrow> link \<Rightarrow> state \<Rightarrow> state" where
  "push K it l s =
     (if isInboundLink K (l_url l) \<and> l_url l \<notin> visitedUrls s
      then s\<lparr>queue := queue s @
             [\<lparr>url = l_url l, referrer = url it, depth = depth it + 1,
               sourcePages = sourcePages it @ [url it]\<rparr>]\<rparr>
      else if \<not> isInboundLink K (l_url l) \<and> l_url l \<notin> visitedUrls s
      then s\<lparr>queue := queue s @
             [\<lparr>url = l_url l, referrer = url it, depth = maxDepth (config K),
               sourcePages = sourcePages it @ [url it]\<rparr>]\<rparr>
      else s)"

definition nextRound :: "nat \<Rightarrow> item \<Rightarrow> link list \<Rightarrow> state \<Rightarrow> state" where
  "nextRound i it ls s =
     (case ls of
        [] \<Rightarrow> finish i it s
      | _ # _ \<Rightarrow> s\<lparr>tasks := (tasks s)[i := (it, Extract ls)]\<rparr>)"

definition handleLink :: "crawler \<Rightarrow> nat \<Rightarrow> item \<Rightarrow> link \<Rightarrow> link list \<Rightarrow> state \<Rightarrow> state" where
  "handleLink K i it l ls s =
     nextRound i it ls (storeIn (l_url l) (stubRecord K it l) (push K it l s))"

text \<open>
  What can happen next: a timer fires and \<open>processQueue\<close> runs; a started task gets to
  its visited check; a waiting task gets its answer or its exception (with the time of
  day it reads); a task in the link loop does one round. An event that does not fit the
  state is \<open>None\<close>. The events may come in any order: the order in which Node runs its
  timers and continuations is one of them, so what holds for all sequences of events
  holds for the crawler.
\<close>

datatype event =
    Timer
  | Resume nat string
  | Response nat response string
  | Failure nat failure string
  | Link nat

definition exec :: "crawler \<Rightarrow> event \<Rightarrow> state \<Rightarrow> state option" where
  "exec K ev s =
     (case ev of
        Timer \<Rightarrow>
          if timers s = 0 then None else Some (processQueue K (s\<lparr>timers := timers s - 1\<rparr>))
      | Resume i now \<Rightarrow>
          if i < length (tasks s)
          then (case tasks s ! i of
                  (it, Start) \<Rightarrow> Some (resume K i it now s)
                | _ \<Rightarrow> None)
          else None
      | Response i r now \<Rightarrow>
          if i < length (tasks s)
          then (case tasks s ! i of
                  (it, AwaitResponse m) \<Rightarrow> Some (respond K i it m r now s)
                | (it, AwaitFull r0) \<Rightarrow> Some (respondFull K i it r0 r now s)
                | _ \<Rightarrow> None)
          else None
      | Failure i e now \<Rightarrow>
          if i < length (tasks s)
          then (case tasks s ! i of
                  (it, AwaitResponse m) \<Rightarrow> Some (fail K i it e now s)
                | (it, AwaitFull r0) \<Rightarrow> Some (fail K i it e now s)
                | _ \<Rightarrow> None)
          else None
      | Link i \<Rightarrow>
          if i < length (tasks s)
          then (case tasks s ! i of
                  (it, Extract (l # ls)) \<Rightarrow> Some (handleLink K i it l ls s)
                | _ \<Rightarrow> None)
          else None)"

fun run :: "crawler \<Rightarrow> event list \<Rightarrow> state \<Rightarrow> state option" where
  "run K [] s = Some s"
| "run K (ev # evs) s = (case exec K ev s of None \<Rightarrow> None | Some s' \<Rightarrow> run K evs s')"

text \<open>The states of a crawl: what a sequence of events leads to from the start.\<close>

inductive reachable :: "crawler \<Rightarrow> state \<Rightarrow> bool" for K :: crawler where
  start: "reachable K (init K)"
| step: "reachable K s \<Longrightarrow> exec K ev s = Some s' \<Longrightarrow> reachable K s'"

section \<open>An example URL library\<close>

text \<open>
  For evaluating the crawler on concrete pages the two libraries are instantiated on
  plain URLs: \<open>http://\<close> or \<open>https://\<close>, a host of dot-separated labels of lower-case
  letters and digits whose last label starts with a letter, and an optional path of
  letters, digits and \<open>- . _ ~ /\<close> without \<open>.\<close> or \<open>..\<close> segments. On such a URL both
  libraries report the scheme with its colon and the host as written; Node's \<open>URL\<close>
  prints the URL unchanged except that an empty path becomes \<open>/\<close>. A string that is not
  a plain URL has no entry here (\<open>None\<close>); the example library is only evaluated on
  plain URLs.
\<close>

definition isLower :: "char \<Rightarrow> bool" where
  "isLower c = (c \<in> set ''abcdefghijklmnopqrstuvwxyz'')"

definition isUpper :: "char \<Rightarrow> bool" where
  "isUpper c = (c \<in> set ''ABCDEFGHIJKLMNOPQRSTUVWXYZ'')"

definition isDigit :: "char \<Rightarrow> bool" where
  "isDigit c = (c \<in> set ''0123456789'')"

definition plainHost :: "string \<Rightarrow> bool" where
  "plainHost h =
     (let labels = splitOn CHR ''.'' h in
        list_all (\<lambda>l. l \<noteq> [] \<and> list_all (\<lambda>c. isLower c \<or> isDigit c) l) labels \<and>
        (case last labels of [] \<Rightarrow> False | c # _ \<Rightarrow> isLower c))"

definition plainPath :: "string \<Rightarrow> bool" where
  "plainPath p =
     (p = [] \<or>
      (startsWith p ''/'' \<and>
       list_all (\<lambda>c. isLower c \<or> isUpper c \<or> isDigit c \<or> c \<in> set ''-._~/'') p \<and>
       list_all (\<lambda>seg. seg \<noteq> ''.'' \<and> seg \<noteq> ''..'') (splitOn CHR ''/'' p)))"

text \<open>Scheme (with colon), host and path of a plain URL.\<close>

definition plainParts :: "string \<Rightarrow> (string \<times> string \<times> string) option" where
  "plainParts s =
     (let scheme = (if startsWith s ''https://'' then ''https:''
                    else if startsWith s ''http://'' then ''http:'' else []);
          rest = drop (length scheme + 2) s;
          h = takeWhile (\<lambda>c. c \<noteq> CHR ''/'') rest;
          p = dropWhile (\<lambda>c. c \<noteq> CHR ''/'') rest
      in if scheme \<noteq> [] \<and> plainHost h \<and> plainPath p then Some (scheme, h, p) else None)"

definition plainLib :: urllib where
  "plainLib =
     \<lparr>URLParse = (\<lambda>s. case plainParts s of
                         None \<Rightarrow> None
                       | Some (sch, h, p) \<Rightarrow> Some \<lparr>protocol = sch, hostname = h\<rparr>),
      URL_pathname = (\<lambda>s. case plainParts s of
                         None \<Rightarrow> None
                       | Some (sch, h, p) \<Rightarrow> Some (if p = [] then ''/'' else p)),
      URL_withoutUtm = (\<lambda>s. case plainParts s of
                         None \<Rightarrow> None
                       | Some (sch, h, p) \<Rightarrow> Some (sch @ ''//'' @ h @ (if p = [] then ''/'' else p)))\<rparr>"

text \<open>
  The example crawler: seed \<open>http://ex.com\<close>, depth limit 3, two tasks at a time, the
  prefix \<open>/private\<close> excluded.
\<close>

definition exampleConfig :: config where
  "exampleConfig =
     \<lparr>websiteUrl = ''http://ex.com'', maxDepth = 3, concurrency = 2,
      skipDataImages = True, excludePatterns = [''/private'']\<rparr>"

definition exampleCrawler :: crawler where
  "exampleCrawler =
     \<lparr>lib = plainLib, config = exampleConfig,
      baseDomain = ''ex.com'', baseProtocol = ''http:''\<rparr>"

section \<open>Observations on a crawl\<close>

text \<open>The URL a request goes to, and the requests of a log that go to a given URL.\<close>

fun target :: "request \<Rightarrow> string" where
  "target (Initial m u) = u"
| "target (Escalated u) = u"

definition requestsFor :: "string \<Rightarrow> request list \<Rightarrow> request list" where
  "requestsFor u rs = filter (\<lambda>q. target q = u) rs"

text \<open>A task that waits for the answer to a request.\<close>

fun waiting :: "pc \<Rightarrow> bool" where
  "waiting (AwaitResponse m) = True"
| "waiting (AwaitFull r) = True"
| "waiting _ = False"


text \<open>
  No visited URL is excluded; a task that waits or is in the link loop has its URL in
  the visited set; a task in the link loop or waiting for its second answer has an
  inbound URL.
\<close>

definition admittedInv :: "crawler \<Rightarrow> state \<Rightarrow> bool" where
  "admittedInv K s =
     ((\<forall>u. u \<in> visitedUrls s \<longrightarrow> \<not> isUrlExcluded K u) \<and>
      (\<forall>i it p. i < length (tasks s) \<and> tasks s ! i = (it, p) \<and> (waiting p \<or> (\<exists>ls. p = Extract ls))
          \<longrightarrow> url it \<in> visitedUrls s) \<and>
      (\<forall>i it ls. i < length (tasks s) \<and> tasks s ! i = (it, Extract ls) \<longrightarrow> isInboundLink K (url it)) \<and>
      (\<forall>i it r. i < length (tasks s) \<and> tasks s ! i = (it, AwaitFull r) \<longrightarrow> isInboundLink K (url it)))"

text \<open>
  Requested URLs are visited; the requests to a URL are none, the first one, or the
  first and the second one; a task waiting for its first (second) answer has made the
  first (both) of them; no two tasks wait for answers about the same URL.
\<close>

definition requestInv :: "state \<Rightarrow> bool" where
  "requestInv s =
     ((\<forall>u. requestsFor u (net s) \<noteq> [] \<longrightarrow> u \<in> visitedUrls s) \<and>
      (\<forall>u. requestsFor u (net s) = [] \<or> requestsFor u (net s) = [Initial HEAD u]
            \<or> requestsFor u (net s) = [Initial HEAD u, Escalated u]) \<and>
      (\<forall>i it m. i < length (tasks s) \<and> tasks s ! i = (it, AwaitResponse m)
          \<longrightarrow> requestsFor (url it) (net s) = [Initial HEAD (url it)]) \<and>
      (\<forall>i it r. i < length (tasks s) \<and> tasks s ! i = (it, AwaitFull r)
          \<longrightarrow> requestsFor (url it) (net s) = [Initial HEAD (url it), Escalated (url it)]) \<and>
      (\<forall>i j. i < length (tasks s) \<and> j < length (tasks s) \<and> waiting (snd (tasks s ! i)) \<and>
             waiting (snd (tasks s ! j)) \<and> url (fst (tasks s ! i)) = url (fst (tasks s ! j))
          \<longrightarrow> i = j))"

text \<open>The queue entries of a state: those in the queue and those of the tasks.\<close>

definition items :: "state \<Rightarrow> item set" where
  "items s = set (queue s) \<union> fst ` set (tasks s)"

text \<open>
  Depths are not negative and, but for depth 0, within the limit; once a URL is visited
  the limit is not negative, and a visited URL passes the admission check at every
  depth within the limit; a task in the link loop is above the limit.
\<close>

definition depthInv :: "crawler \<Rightarrow> state \<Rightarrow> bool" where
  "depthInv K s =
     ((\<forall>it. it \<in> items s \<longrightarrow> 0 \<le> depth it \<and> (depth it \<le> maxDepth (config K) \<or> depth it = 0)) \<and>
      (\<forall>u. u \<in> visitedUrls s \<longrightarrow>
         0 \<le> maxDepth (config K) \<and> \<not> isUrlExcluded K u \<and>
         \<not> (skipDataImages (config K) \<and> startsWith u ''data:image'')) \<and>
      (\<forall>i it ls. i < length (tasks s) \<and> tasks s ! i = (it, Extract ls) \<longrightarrow>
         depth it < maxDepth (config K) \<and> url it \<in> visitedUrls s))"

section \<open>Example pages and runs\<close>

text \<open>
  Answers of the example site: the seed answers a HEAD and a GET with an HTML content
  type; its page links to two excluded paths, or to an excluded path of another site,
  or to a page of another site, or twice to the same page. The runs fetch the seed page and go through its links.
\<close>

definition noLinks :: document where
  "noLinks = \<lparr>anchors = [], stylesheets = [], scripts = [], images = []\<rparr>"

definition htmlAnswer :: "document \<Rightarrow> response" where
  "htmlAnswer d =
     \<lparr>status = 200, responseUrl = None, contentTypeHeader = Some ''text/html; charset=utf-8'',
      body = d\<rparr>"

definition privatePage :: document where
  "privatePage =
     \<lparr>anchors = [(Some ''/private/a'', ''A''), (Some ''/private/b'', ''B'')],
      stylesheets = [], scripts = [], images = []\<rparr>"

definition outboundPage :: document where
  "outboundPage =
     \<lparr>anchors = [(Some ''http://other.org/private/x'', ''X'')],
      stylesheets = [], scripts = [], images = []\<rparr>"


definition twinPage :: document where
  "twinPage =
     \<lparr>anchors = [(Some ''/about'', ''About''), (Some ''/about#team'', ''Team'')],
      stylesheets = [], scripts = [], images = []\<rparr>"

definition seedItem :: item where
  "seedItem = \<lparr>url = ''http://ex.com'', referrer = [], depth = 0, sourcePages = []\<rparr>"

definition fetchSeed :: "document \<Rightarrow> event list" where
  "fetchSeed d =
     [Timer, Resume 0 ''t1'', Response 0 (htmlAnswer noLinks) ''t2'', Response 0 (htmlAnswer d) ''t3'']"

definition twoExcludedLinks :: "event list" where
  "twoExcludedLinks =
     fetchSeed privatePage @ [Link 0, Link 0, Timer, Resume 1 ''t4'', Resume 2 ''t5'', Timer, Timer]"


definition discoveredTwice :: "event list" where
  "discoveredTwice = fetchSeed twinPage @ [Link 0, Link 0, Timer, Resume 1 ''t4'']"

text \<open>
  A crawler whose seed is a data URL; \<open>url-parse\<close> reads the scheme \<open>data:\<close> and an empty
  host off it.
\<close>

definition dataImageCrawler :: crawler where
  "dataImageCrawler =
     \<lparr>lib = plainLib,
      config = exampleConfig\<lparr>websiteUrl := ''data:image/png;base64,AAAA''\<rparr>,
      baseDomain = [], baseProtocol = ''data:''\<rparr>"

section \<open>Facts about the strings\<close>

lemma startsWith_append [simp]: "startsWith (p @ s) p"
  by (simp add: startsWith_def)

lemma exampleCrawler_loaded: "load plainLib exampleConfig = Some exampleCrawler"
proof -
  have "URLParse plainLib ''http://ex.com'' = Some \<lparr>protocol = ''http:'', hostname = ''ex.com''\<rparr>"
    by code_simp
  then show ?thesis
    by (simp add: load_def exampleConfig_def exampleCrawler_def)
qed

section \<open>The URL normaliser\<close>

text \<open>
  C5, as amended. A protocol-relative reference (one that starts with \<open>//\<close>) is prefixed
  with the fixed scheme \<open>https:\<close>, whatever the scheme of the seed URL is; the result of
  \<open>normalizeUrl\<close> is that string without one trailing slash and without its fragment,
  passed through the removal of the tracking parameters. Neither the seed's scheme nor
  its host nor the page's URL enters the result.
\<close>

theorem normalizeUrl_protocol_relative:
  assumes "startsWith ref ''//''"
  shows "normalizeUrl K ref baseUrl =
           (let u = beforeHash (stripTrailingSlash (''https:'' @ ref))
            in case URL_withoutUtm (lib K) u of Some href \<Rightarrow> href | None \<Rightarrow> u)"
  using assms by (simp add: normalizeUrl_def startsWith_def)

theorem normalizeUrl_protocol_relative_witness:
  "startsWith ''//cdn.ex.com/lib.js'' ''//'' \<and>
   normalizeUrl exampleCrawler ''//cdn.ex.com/lib.js'' ''http://ex.com'' = ''https://cdn.ex.com/lib.js''"
proof -
  have pre: "startsWith ''//cdn.ex.com/lib.js'' ''//''"
    by code_simp
  have rhs: "(let u = beforeHash (stripTrailingSlash (''https:'' @ ''//cdn.ex.com/lib.js''))
              in case URL_withoutUtm (lib exampleCrawler) u of Some href \<Rightarrow> href | None \<Rightarrow> u)
             = ''https://cdn.ex.com/lib.js''"
    by code_simp
  have "normalizeUrl exampleCrawler ''//cdn.ex.com/lib.js'' ''http://ex.com'' = ''https://cdn.ex.com/lib.js''"
    by (rule trans [OF normalizeUrl_protocol_relative [OF pre] rhs])
  with pre show ?thesis by (rule conjI)
qed

text \<open>
  C5 as stated fails: with the seed \<open>http://ex.com\<close> the reference
  \<open>//cdn.ex.com/lib.js\<close> does not get the seed's scheme \<open>http:\<close>.
\<close>

theorem normalizeUrl_seed_scheme_counterexample:
  "baseProtocol exampleCrawler = ''http:'' \<and>
   normalizeUrl exampleCrawler ''//cdn.ex.com/lib.js'' ''http://ex.com''
     \<noteq> baseProtocol exampleCrawler @ ''//cdn.ex.com/lib.js''"
  by code_simp

text \<open>
  C3 says that \<open>normalizeUrl\<close> is idempotent. The code is not: the trailing slash is
  removed before the fragment is, so \<open>https://ex.com/a/#top\<close> is normalised to
  \<open>https://ex.com/a/\<close>, which a second pass turns into \<open>https://ex.com/a\<close>.
\<close>

theorem normalizeUrl_not_idempotent:
  "normalizeUrl exampleCrawler ''https://ex.com/a/#top'' ''http://ex.com'' = ''https://ex.com/a/'' \<and>
   normalizeUrl exampleCrawler
     (normalizeUrl exampleCrawler ''https://ex.com/a/#top'' ''http://ex.com'') ''http://ex.com''
     = ''https://ex.com/a'' \<and>
   normalizeUrl exampleCrawler
     (normalizeUrl exampleCrawler ''https://ex.com/a/#top'' ''http://ex.com'') ''http://ex.com''
     \<noteq> normalizeUrl exampleCrawler ''https://ex.com/a/#top'' ''http://ex.com''"
  by code_simp

section \<open>The classifier\<close>

text \<open>
  The suffix test of the specification, spelled out: somewhere in the URL there is a
  dot, then the extension in either case, then the end of the URL or a question mark.
\<close>

lemma endsWith_iff: "endsWith s p \<longleftrightarrow> (\<exists>q. s = q @ p)"
proof
  assume "endsWith s p"
  then have "s = take (length s - length p) s @ p"
    unfolding endsWith_def by (metis append_take_drop_id)
  then show "\<exists>q. s = q @ p" ..
next
  assume "\<exists>q. s = q @ p"
  then show "endsWith s p" by (auto simp: endsWith_def)
qed

lemma lowerChar_dot: "lowerChar c = CHR ''.'' \<longleftrightarrow> c = CHR ''.''"
  by (simp add: lowerChar_def)

lemma withoutQuery_set:
  "set (withoutQuery u) = {s. \<exists>t. u = s @ t \<and> (case t of [] \<Rightarrow> True | d # _ \<Rightarrow> d = CHR ''?'')}"
proof (intro set_eqI iffI)
  fix s assume "s \<in> set (withoutQuery u)"
  then consider "s = u" | n where "n < length u" "u ! n = CHR ''?''" "s = take n u"
    by (auto simp: withoutQuery_def)
  then show "s \<in> {s. \<exists>t. u = s @ t \<and> (case t of [] \<Rightarrow> True | d # _ \<Rightarrow> d = CHR ''?'')}"
  proof cases
    case 1
    then show ?thesis by simp
  next
    case 2
    from 2(3) have "u = s @ drop n u" by simp
    moreover from 2(1) have "drop n u = u ! n # drop (Suc n) u"
      by (simp add: Cons_nth_drop_Suc)
    ultimately have "u = s @ drop n u \<and> (case drop n u of [] \<Rightarrow> True | d # _ \<Rightarrow> d = CHR ''?'')"
      using 2(2) by simp
    then show ?thesis by blast
  qed
next
  fix s assume "s \<in> {s. \<exists>t. u = s @ t \<and> (case t of [] \<Rightarrow> True | d # _ \<Rightarrow> d = CHR ''?'')}"
  then obtain t where t: "u = s @ t" "case t of [] \<Rightarrow> True | d # _ \<Rightarrow> d = CHR ''?''" by blast
  show "s \<in> set (withoutQuery u)"
  proof (cases t)
    case Nil
    with t show ?thesis by (simp add: withoutQuery_def)
  next
    case (Cons d r)
    with t have "length s < length u" "u ! length s = CHR ''?''" "s = take (length s) u"
      by simp_all
    then have "s \<in> (\<lambda>n. take n u) ` {n. n < length u \<and> u ! n = CHR ''?''}" by blast
    then show ?thesis by (auto simp: withoutQuery_def)
  qed
qed

lemma hasSuffix_iff:
  "hasSuffix u e \<longleftrightarrow>
     (\<exists>q x t. u = q @ CHR ''.'' # x @ t \<and> map lowerChar x = e \<and>
              (case t of [] \<Rightarrow> True | d # _ \<Rightarrow> d = CHR ''?''))"
proof -
  have "hasSuffix u e \<longleftrightarrow>
      (\<exists>s t. u = s @ t \<and> (case t of [] \<Rightarrow> True | d # _ \<Rightarrow> d = CHR ''?'') \<and>
             endsWith (map lowerChar s) (CHR ''.'' # e))"
    unfolding hasSuffix_def list_ex_iff withoutQuery_set by blast
  also have "\<dots> \<longleftrightarrow> (\<exists>q x t. u = q @ CHR ''.'' # x @ t \<and> map lowerChar x = e \<and>
              (case t of [] \<Rightarrow> True | d # _ \<Rightarrow> d = CHR ''?''))"
  proof (intro iffI)
    assume "\<exists>s t. u = s @ t \<and> (case t of [] \<Rightarrow> True | d # _ \<Rightarrow> d = CHR ''?'') \<and>
             endsWith (map lowerChar s) (CHR ''.'' # e)"
    then obtain s t q where st: "u = s @ t" "case t of [] \<Rightarrow> True | d # _ \<Rightarrow> d = CHR ''?''"
      and q: "map lowerChar s = q @ CHR ''.'' # e"
      unfolding endsWith_iff by blast
    from q obtain us vs where us: "s = us @ vs" "map lowerChar vs = CHR ''.'' # e"
      by (auto simp: map_eq_append_conv)
    then obtain z zs where z: "vs = z # zs" "lowerChar z = CHR ''.''" "map lowerChar zs = e"
      by (auto simp: map_eq_Cons_conv)
    from z(2) have "z = CHR ''.''" by (simp add: lowerChar_dot)
    with st us z have "u = us @ CHR ''.'' # zs @ t" by simp
    with z(3) st(2) show "\<exists>q x t. u = q @ CHR ''.'' # x @ t \<and> map lowerChar x = e \<and>
              (case t of [] \<Rightarrow> True | d # _ \<Rightarrow> d = CHR ''?'')" by blast
  next
    assume "\<exists>q x t. u = q @ CHR ''.'' # x @ t \<and> map lowerChar x = e \<and>
              (case t of [] \<Rightarrow> True | d # _ \<Rightarrow> d = CHR ''?'')"
    then obtain q x t where x: "u = q @ CHR ''.'' # x @ t" "map lowerChar x = e"
      "case t of [] \<Rightarrow> True | d # _ \<Rightarrow> d = CHR ''?''" by blast
    have "lowerChar CHR ''.'' = CHR ''.''" by (simp add: lowerChar_dot)
    with x(2) have "map lowerChar (q @ CHR ''.'' # x) = map lowerChar q @ CHR ''.'' # e" by simp
    then have "endsWith (map lowerChar (q @ CHR ''.'' # x)) (CHR ''.'' # e)"
      unfolding endsWith_iff by blast
    moreover from x(1) have "u = (q @ CHR ''.'' # x) @ t" by simp
    ultimately show "\<exists>s t. u = s @ t \<and> (case t of [] \<Rightarrow> True | d # _ \<Rightarrow> d = CHR ''?'') \<and>
             endsWith (map lowerChar s) (CHR ''.'' # e)" using x(3) by blast
  qed
  finally show ?thesis .
qed

text \<open>
  C9. For every URL and tag, \<open>getAssetType\<close> is the classifier of the specification: an
  anchor is a link, a script tag a script, an img tag an image, a stylesheet link whose
  URL has the suffix \<open>.css\<close> a stylesheet; everything else is classified by the
  extension the URL ends with (image extensions, then \<open>.css\<close>, then \<open>.js\<close>), and
  \<open>other\<close> is the default. The proof shows that the regular expressions of the source
  recognise exactly the URLs with the suffix.
\<close>

theorem getAssetType_classify: "getAssetType u tag = classify u tag"
proof -
  have at: "extAt exts r \<longleftrightarrow>
              (\<exists>e\<in>set exts. \<exists>x t. r = CHR ''.'' # x @ t \<and> map lowerChar x = e \<and>
                 (case t of [] \<Rightarrow> True | d # _ \<Rightarrow> d = CHR ''?''))" for exts r
  proof (cases r)
    case Nil
    then show ?thesis by (simp add: extAt_def)
  next
    case (Cons c r')
    have "list_ex (\<lambda>e. map lowerChar (take (length e) r') = e \<and>
                        (case drop (length e) r' of [] \<Rightarrow> True | d # _ \<Rightarrow> d = CHR ''?'')) exts
          \<longleftrightarrow> (\<exists>e\<in>set exts. \<exists>x t. r' = x @ t \<and> map lowerChar x = e \<and>
                 (case t of [] \<Rightarrow> True | d # _ \<Rightarrow> d = CHR ''?''))"
      unfolding list_ex_iff
    proof (intro bex_cong refl iffI)
      fix e assume "map lowerChar (take (length e) r') = e \<and>
                        (case drop (length e) r' of [] \<Rightarrow> True | d # _ \<Rightarrow> d = CHR ''?'')"
      then show "\<exists>x t. r' = x @ t \<and> map lowerChar x = e \<and>
                 (case t of [] \<Rightarrow> True | d # _ \<Rightarrow> d = CHR ''?'')"
        by (intro exI [of _ "take (length e) r'"] exI [of _ "drop (length e) r'"]) simp
    next
      fix e assume "\<exists>x t. r' = x @ t \<and> map lowerChar x = e \<and>
                 (case t of [] \<Rightarrow> True | d # _ \<Rightarrow> d = CHR ''?'')"
      then obtain x t where "r' = x @ t" "map lowerChar x = e"
        "case t of [] \<Rightarrow> True | d # _ \<Rightarrow> d = CHR ''?''" by blast
      moreover from this have "length x = length e" by auto
      ultimately show "map lowerChar (take (length e) r') = e \<and>
                        (case drop (length e) r' of [] \<Rightarrow> True | d # _ \<Rightarrow> d = CHR ''?'')"
        by simp
    qed
    with Cons show ?thesis by (auto simp: extAt_def)
  qed
  have somewhere: "matchesExt exts v \<longleftrightarrow> (\<exists>q r. v = q @ r \<and> extAt exts r)" for exts v
  proof (induction v)
    case Nil
    then show ?case by (simp add: extAt_def)
  next
    case (Cons c v)
    have "(\<exists>q r. c # v = q @ r \<and> extAt exts r) \<longleftrightarrow>
            extAt exts (c # v) \<or> (\<exists>q r. v = q @ r \<and> extAt exts r)"
      by (auto simp: Cons_eq_append_conv)
    with Cons show ?case by simp
  qed
  have m: "matchesExt exts u = list_ex (hasSuffix u) exts" for exts
    unfolding somewhere at hasSuffix_iff list_ex_iff by blast
  have one: "matchesExt [e] u = hasSuffix u e" for e
    by (simp add: m)
  show ?thesis
    by (simp add: getAssetType_def classify_def sniffExtension_def imageExts_def one m [of "[''jpg'', ''jpeg'', ''png'', ''gif'', ''svg'', ''webp'', ''ico'']"])
qed

theorem getAssetType_classify_witness:
  "getAssetType ''http://ex.com/logo.PNG'' [] = IMAGE \<and>
   getAssetType ''http://ex.com/photo.jpeg'' ''img'' = IMAGE \<and>
   getAssetType ''http://ex.com/site.css?v=3'' ''link'' = CSS \<and>
   getAssetType ''http://ex.com/site.css'' [] = CSS \<and>
   getAssetType ''http://ex.com/feed'' ''link'' = OTHER \<and>
   getAssetType ''http://ex.com/app.js'' [] = SCRIPT \<and>
   getAssetType ''http://ex.com/app'' ''script'' = SCRIPT \<and>
   getAssetType ''http://ex.com/logo.png'' ''a'' = LINK \<and>
   getAssetType ''http://ex.com/page.html'' [] = OTHER"
proof -
  have "classify ''http://ex.com/logo.PNG'' [] = IMAGE"
    "classify ''http://ex.com/photo.jpeg'' ''img'' = IMAGE"
    "classify ''http://ex.com/site.css?v=3'' ''link'' = CSS"
    "classify ''http://ex.com/site.css'' [] = CSS"
    "classify ''http://ex.com/feed'' ''link'' = OTHER"
    "classify ''http://ex.com/app.js'' [] = SCRIPT"
    "classify ''http://ex.com/app'' ''script'' = SCRIPT"
    "classify ''http://ex.com/logo.png'' ''a'' = LINK"
    "classify ''http://ex.com/page.html'' [] = OTHER"
    by code_simp+
  then show ?thesis by (simp only: getAssetType_classify simp_thms)
qed

text \<open>
  \<open>checkUrl\<close> classifies its URL without a tag, which never gives \<open>link\<close>: the first
  request of every task is a HEAD.
\<close>

lemma getAssetType_no_tag: "getAssetType u [] \<noteq> LINK"
  by (simp add: getAssetType_def)

lemma initialMethod_HEAD [simp]: "initialMethod u = HEAD"
  by (simp add: initialMethod_def getAssetType_no_tag)

section \<open>What storeResult leaves in the database\<close>

lemma addSourcePages_frame [simp]:
  "hashes (addSourcePages u ps R) = hashes R" "all_urls (addSourcePages u ps R) = all_urls R"
  "typeIndex (addSourcePages u ps R) = typeIndex R" "statusIndex (addSourcePages u ps R) = statusIndex R"
  by (induction ps arbitrary: R) (simp_all add: addSource_def)

lemma addSourcePages_mono: "x \<in> sources R k \<Longrightarrow> x \<in> sources (addSourcePages u ps R) k"
proof (induction ps arbitrary: R)
  case Nil
  then show ?case by simp
next
  case (Cons p ps)
  have "x \<in> sources (if p \<noteq> [] then addSource u p R else R) k"
    using Cons.prems by (auto simp: addSource_def)
  then show ?case by (simp add: Cons.IH del: fun_upd_apply)
qed

lemma storeReferrer_frame [simp]:
  "hashes (storeReferrer u d R) = hashes R" "all_urls (storeReferrer u d R) = all_urls R"
  "typeIndex (storeReferrer u d R) = typeIndex R" "statusIndex (storeReferrer u d R) = statusIndex R"
  by (simp_all add: storeReferrer_def addSource_def split: option.splits jsval.splits)

lemma storeSourcePages_frame [simp]:
  "hashes (storeSourcePages u d R) = hashes R" "all_urls (storeSourcePages u d R) = all_urls R"
  "typeIndex (storeSourcePages u d R) = typeIndex R" "statusIndex (storeSourcePages u d R) = statusIndex R"
  by (simp_all add: storeSourcePages_def split: option.splits jsval.splits)

lemma storeSourcePages_mono: "x \<in> sources R k \<Longrightarrow> x \<in> sources (storeSourcePages u d R) k"
  by (auto simp: storeSourcePages_def intro: addSourcePages_mono split: option.splits jsval.splits)

lemma storeType_frame [simp]:
  "hashes (storeType u d R) = hashes R" "all_urls (storeType u d R) = all_urls R"
  "sources (storeType u d R) = sources R" "statusIndex (storeType u d R) = statusIndex R"
  by (simp_all add: storeType_def addType_def split: option.splits jsval.splits)

lemma storeStatus_frame [simp]:
  "hashes (storeStatus u d R) = hashes R" "all_urls (storeStatus u d R) = all_urls R"
  "sources (storeStatus u d R) = sources R" "typeIndex (storeStatus u d R) = typeIndex R"
  by (simp_all add: storeStatus_def addStatus_def split: option.splits)

lemma storeResult_hashes:
  "hashes (storeResult u d R) =
     (hashes R)(fixProtocolRelativeUrl u \<mapsto>
        (case hashes R (fixProtocolRelativeUrl u) of
           None \<Rightarrow> processedData (withStatus d)
         | Some h \<Rightarrow> h ++ processedData (withStatus d)))"
  by (simp add: storeResult_def storeFields_def addUrl_def hSet_def)

lemma storeResult_all_urls [simp]:
  "all_urls (storeResult u d R) = insert (fixProtocolRelativeUrl u) (all_urls R)"
  by (simp add: storeResult_def storeFields_def addUrl_def hSet_def)

lemma storeResult_field:
  assumes "withStatus d f = Some v"
  shows "\<exists>h. hashes (storeResult u d R) (fixProtocolRelativeUrl u) = Some h \<and> h f = Some (stringOf v)"
  using assms by (simp add: storeResult_hashes processedData_def map_add_def split: option.splits)

lemma storeResult_referrer:
  assumes "d ''referrer'' = Some (Str r)" "r \<noteq> []"
  shows "r \<in> sources (storeResult u d R) (fixProtocolRelativeUrl u)"
proof -
  have "withStatus d ''referrer'' = Some (Str r)" using assms by (simp add: withStatus_def)
  then have "r \<in> sources (storeReferrer (fixProtocolRelativeUrl u) (withStatus d)
                 (addUrl (fixProtocolRelativeUrl u)
                   (hSet (fixProtocolRelativeUrl u) (processedData (withStatus d)) R)))
               (fixProtocolRelativeUrl u)"
    using assms(2) by (simp add: storeReferrer_def addSource_def)
  then show ?thesis
    by (simp add: storeResult_def storeFields_def storeSourcePages_mono)
qed

lemma storeResult_status:
  assumes "withStatus d ''status'' = Some st"
  shows "fixProtocolRelativeUrl u \<in> statusIndex (storeResult u d R) st"
  using assms by (simp add: storeResult_def storeFields_def storeStatus_def addStatus_def)

lemma storeResult_type:
  assumes "d ''type'' = Some (Str t)" "t \<noteq> []"
  shows "fixProtocolRelativeUrl u \<in> typeIndex (storeResult u d R) t"
proof -
  have "withStatus d ''type'' = Some (Str t)" using assms by (simp add: withStatus_def)
  then show ?thesis
    using assms(2)
    by (simp add: storeResult_def storeFields_def storeType_def addType_def)
qed


lemma stubRecord_fields:
  "withStatus (stubRecord K it l) ''status'' = Some (Num 0)"
  "withStatus (stubRecord K it l) ''checkedAt'' = Some Null"
  "withStatus (stubRecord K it l) ''referrer'' = Some (Str (url it))"
  "stubRecord K it l ''referrer'' = Some (Str (url it))"
  "stubRecord K it l ''type'' = Some (Str (typeName (getAssetType (l_url l) (l_tag l))))"
  by (simp_all add: withStatus_def stubRecord_def)

section \<open>The admission check\<close>

lemma shouldCrawlUrl_iff:
  "shouldCrawlUrl K u d \<longleftrightarrow>
     d \<le> maxDepth (config K) \<and> \<not> (skipDataImages (config K) \<and> startsWith u ''data:image'') \<and>
     \<not> isUrlExcluded K u"
  by (auto simp: shouldCrawlUrl_def)

lemma shouldCrawlUrl_not_excluded: "shouldCrawlUrl K u d \<Longrightarrow> \<not> isUrlExcluded K u"
  by (simp add: shouldCrawlUrl_def split: if_splits)

lemma shouldCrawlUrl_no_data_image:
  "shouldCrawlUrl K u d \<Longrightarrow> \<not> (startsWith u ''data:image'' \<and> skipDataImages (config K))"
  by (auto simp: shouldCrawlUrl_def split: if_splits)

lemma resume_visited:
  "shouldCrawlUrl K (url it) (depth it) \<Longrightarrow> url it \<in> visitedUrls s
     \<Longrightarrow> resume K i it now s = finish i it (mergeReferrer it s)"
  by (simp add: resume_def)

lemma resume_fresh:
  "shouldCrawlUrl K (url it) (depth it) \<Longrightarrow> url it \<notin> visitedUrls s
     \<Longrightarrow> resume K i it now s = request i it (claim it s)"
  using shouldCrawlUrl_no_data_image [of K "url it" "depth it"] by (auto simp: resume_def)

lemma resume_rejected:
  "\<not> shouldCrawlUrl K (url it) (depth it) \<Longrightarrow> resume K i it now s = finish i it s"
  by (simp add: resume_def)

section \<open>How an event changes the state\<close>

text \<open>
  \<open>exec_cases\<close> names the function that an enabled event runs; \<open>exec_effect\<close> sums up
  what each of them does to the task list, the visited set and the request log.
\<close>

lemma exec_cases:
  assumes "exec K ev s = Some s'"
  obtains
    (Timer) "ev = Timer" "timers s \<noteq> 0" "s' = processQueue K (s\<lparr>timers := timers s - 1\<rparr>)"
  | (Resume) i now it where "ev = Resume i now" "i < length (tasks s)" "tasks s ! i = (it, Start)"
      "s' = resume K i it now s"
  | (Response) i r now it m where "ev = Response i r now" "i < length (tasks s)"
      "tasks s ! i = (it, AwaitResponse m)" "s' = respond K i it m r now s"
  | (Full) i r now it r0 where "ev = Response i r now" "i < length (tasks s)"
      "tasks s ! i = (it, AwaitFull r0)" "s' = respondFull K i it r0 r now s"
  | (Failure) i e now it where "ev = Failure i e now" "i < length (tasks s)"
      "(\<exists>m. tasks s ! i = (it, AwaitResponse m)) \<or> (\<exists>r0. tasks s ! i = (it, AwaitFull r0))"
      "s' = fail K i it e now s"
  | (Link) i it l ls where "ev = Link i" "i < length (tasks s)"
      "tasks s ! i = (it, Extract (l # ls))" "s' = handleLink K i it l ls s"
  using assms
  by (auto simp: exec_def split: event.splits if_splits prod.splits pc.splits list.splits)

lemma exec_Resume:
  "i < length (tasks s) \<Longrightarrow> tasks s ! i = (it, Start)
     \<Longrightarrow> exec K (Resume i now) s = Some (resume K i it now s)"
  by (simp add: exec_def)

lemma exec_Link:
  "i < length (tasks s) \<Longrightarrow> tasks s ! i = (it, Extract (l # ls))
     \<Longrightarrow> exec K (Link i) s = Some (handleLink K i it l ls s)"
  by (simp add: exec_def)



lemma fill_tasks:
  "fill C q a ts = (q', a', ts') \<Longrightarrow>
     \<exists>d. ts' = ts @ map (\<lambda>x. (x, Start)) d \<and> q = d @ q' \<and> a' = a + int (length d)"
proof (induction C q a ts rule: fill.induct)
  case (1 C a ts)
  then show ?case by simp
next
  case (2 C x q a ts)
  show ?case
  proof (cases "a < C")
    case True
    with 2 obtain d where "ts' = (ts @ [(x, Start)]) @ map (\<lambda>x. (x, Start)) d" "q = d @ q'"
       "a' = a + 1 + int (length d)" by auto
    then show ?thesis by (intro exI [of _ "x # d"]) simp
  next
    case False
    with 2 show ?thesis by simp
  qed
qed

lemma processQueue_tasks:
  "\<exists>d. tasks (processQueue K s) = tasks s @ map (\<lambda>x. (x, Start)) d"
  by (auto simp: processQueue_def split: prod.splits dest: fill_tasks)

lemma processQueue_frame [simp]:
  "net (processQueue K s) = net s" "visitedUrls (processQueue K s) = visitedUrls s"
  "redis (processQueue K s) = redis s" "timers (processQueue K s) = timers s"
  by (auto simp: processQueue_def split: prod.splits)

text \<open>A task list that only grew by fresh tasks: the old tasks are where they were.\<close>

lemma nth_grown:
  assumes "i < length (ts @ map (\<lambda>x. (x, Start)) d)" "(ts @ map (\<lambda>x. (x, Start)) d) ! i = (it, p)" "p \<noteq> Start"
  shows "i < length ts \<and> ts ! i = (it, p)"
  using assms by (cases "i < length ts") (auto simp: nth_append)

lemma processQueue_tasks_old:
  assumes "i < length (tasks (processQueue K s))" "tasks (processQueue K s) ! i = (it, p)" "p \<noteq> Start"
  shows "i < length (tasks s) \<and> tasks s ! i = (it, p)"
proof -
  obtain d where "tasks (processQueue K s) = tasks s @ map (\<lambda>x. (x, Start)) d"
    using processQueue_tasks by blast
  with assms show ?thesis using nth_grown [of i "tasks s" d it p] by simp
qed

lemma nth_update_cases:
  "i < length ts \<Longrightarrow> j < length (ts[i := x]) \<Longrightarrow> ts[i := x] ! j = y
     \<Longrightarrow> (j = i \<and> y = x) \<or> (j < length ts \<and> ts ! j = y)"
  by (auto simp: nth_list_update split: if_splits)

lemma resume_effect:
  "(tasks (resume K i it now s) = (tasks s)[i := (it, Finished)] \<and> net (resume K i it now s) = net s \<and>
          (visitedUrls (resume K i it now s) = visitedUrls s \<or>
           shouldCrawlUrl K (url it) (depth it) \<and> visitedUrls (resume K i it now s) = insert (url it) (visitedUrls s)))
       \<or> (shouldCrawlUrl K (url it) (depth it) \<and> url it \<notin> visitedUrls s \<and>
           tasks (resume K i it now s) = (tasks s)[i := (it, AwaitResponse HEAD)] \<and>
           net (resume K i it now s) = net s @ [Initial HEAD (url it)] \<and>
           visitedUrls (resume K i it now s) = insert (url it) (visitedUrls s))"
  by (simp add: resume_def finish_def mergeReferrer_def claim_def storeIn_def request_def)

lemma afterFetch_effect:
  "visitedUrls (afterFetch K i it r now s) = visitedUrls s \<and> net (afterFetch K i it r now s) = net s \<and>
   (tasks (afterFetch K i it r now s) = (tasks s)[i := (it, Finished)] \<or>
    isInboundLink K (url it) \<and>
    (\<exists>ls. tasks (afterFetch K i it r now s) = (tasks s)[i := (it, Extract ls)]))"
  by (auto simp add: afterFetch_def startLoop_def finish_def storeIn_def split: list.splits)

lemma respond_effect:
  "(isInboundLink K (url it) \<and> tasks (respond K i it m r now s) = (tasks s)[i := (it, AwaitFull r)] \<and>
      net (respond K i it m r now s) = net s @ [Escalated (url it)] \<and>
      visitedUrls (respond K i it m r now s) = visitedUrls s)
   \<or> respond K i it m r now s = afterFetch K i it r now s"
  by (simp add: respond_def)

lemma fail_effect:
  "visitedUrls (fail K i it e now s) = visitedUrls s \<and> net (fail K i it e now s) = net s \<and>
   tasks (fail K i it e now s) = (tasks s)[i := (it, Finished)]"
  by (simp add: fail_def finish_def storeIn_def)

lemma handleLink_effect:
  "visitedUrls (handleLink K i it l ls s) = visitedUrls s \<and> net (handleLink K i it l ls s) = net s \<and>
   (tasks (handleLink K i it l ls s) = (tasks s)[i := (it, Finished)] \<or>
    tasks (handleLink K i it l ls s) = (tasks s)[i := (it, Extract ls)])"
  by (simp add: handleLink_def nextRound_def push_def finish_def storeIn_def split: list.splits)

lemma exec_effect:
  assumes "exec K ev s = Some s'"
  obtains
    (spawn) d where "tasks s' = tasks s @ map (\<lambda>x. (x, Start)) d"
      "visitedUrls s' = visitedUrls s" "net s' = net s"
  | (finished) i it p where "i < length (tasks s)" "tasks s ! i = (it, p)"
      "tasks s' = (tasks s)[i := (it, Finished)]" "net s' = net s"
      "visitedUrls s' = visitedUrls s \<or>
       p = Start \<and> shouldCrawlUrl K (url it) (depth it) \<and> visitedUrls s' = insert (url it) (visitedUrls s)"
  | (claimed) i it where "i < length (tasks s)" "tasks s ! i = (it, Start)"
      "shouldCrawlUrl K (url it) (depth it)" "url it \<notin> visitedUrls s"
      "tasks s' = (tasks s)[i := (it, AwaitResponse HEAD)]"
      "net s' = net s @ [Initial HEAD (url it)]"
      "visitedUrls s' = insert (url it) (visitedUrls s)"
  | (escalated) i it m r where "i < length (tasks s)" "tasks s ! i = (it, AwaitResponse m)"
      "isInboundLink K (url it)" "tasks s' = (tasks s)[i := (it, AwaitFull r)]"
      "net s' = net s @ [Escalated (url it)]" "visitedUrls s' = visitedUrls s"
  | (extracting) i it p ls where "i < length (tasks s)" "tasks s ! i = (it, p)" "waiting p"
      "isInboundLink K (url it)" "tasks s' = (tasks s)[i := (it, Extract ls)]"
      "net s' = net s" "visitedUrls s' = visitedUrls s"
  | (advanced) i it l ls where "i < length (tasks s)" "tasks s ! i = (it, Extract (l # ls))"
      "tasks s' = (tasks s)[i := (it, Extract ls)]" "net s' = net s" "visitedUrls s' = visitedUrls s"
  using assms
proof (cases rule: exec_cases)
  case Timer
  then show ?thesis
    using processQueue_tasks [of K "s\<lparr>timers := timers s - 1\<rparr>"] spawn by auto
next
  case (Resume i now it)
  then show ?thesis
    using resume_effect [of K i it now s] finished [of i it Start] claimed [of i it] by blast
next
  case (Response i r now it m)
  then show ?thesis
    using respond_effect [of K it i m r now s] afterFetch_effect [of K i it r now s]
      escalated [of i it m r] finished [of i it "AwaitResponse m"] extracting [of i it "AwaitResponse m"]
    by (metis waiting.simps(1))
next
  case (Full i r now it r0)
  then show ?thesis
    using afterFetch_effect [of K i it "r0\<lparr>body := body r\<rparr>" now s]
      finished [of i it "AwaitFull r0"] extracting [of i it "AwaitFull r0"]
    unfolding respondFull_def by (metis waiting.simps(2))
next
  case (Failure i e now it)
  then show ?thesis
    using fail_effect [of K i it e now s] finished [of i it] by metis
next
  case (Link i it l ls)
  then show ?thesis
    using handleLink_effect [of K i it l ls s] finished [of i it "Extract (l # ls)"] advanced [of i it l ls]
    by metis
qed

lemma afterFetch_move:
  "queue (afterFetch K i it r now s) = queue s \<and>
   visitedUrls (afterFetch K i it r now s) = visitedUrls s \<and>
   (\<exists>p'. tasks (afterFetch K i it r now s) = (tasks s)[i := (it, p')] \<and>
         (\<forall>ls. p' = Extract ls \<longrightarrow> depth it < maxDepth (config K)))"
  by (auto simp: afterFetch_def startLoop_def finish_def storeIn_def split: list.splits)

lemma respond_move:
  "queue (respond K i it m r now s) = queue s \<and>
   visitedUrls (respond K i it m r now s) = visitedUrls s \<and>
   (\<exists>p'. tasks (respond K i it m r now s) = (tasks s)[i := (it, p')] \<and>
         (\<forall>ls. p' = Extract ls \<longrightarrow> depth it < maxDepth (config K)))"
  using afterFetch_move [of K i it r now s] by (auto simp: respond_def)

lemma fail_move:
  "queue (fail K i it e now s) = queue s \<and>
   visitedUrls (fail K i it e now s) = visitedUrls s \<and>
   tasks (fail K i it e now s) = (tasks s)[i := (it, Finished)]"
  by (simp add: fail_def finish_def storeIn_def)

lemma handleLink_move:
  "visitedUrls (handleLink K i it l ls s) = visitedUrls s \<and>
   (\<exists>p'. tasks (handleLink K i it l ls s) = (tasks s)[i := (it, p')] \<and>
         (p' = Finished \<or> p' = Extract ls)) \<and>
   (queue (handleLink K i it l ls s) = queue s \<or>
    (\<exists>d. (d = depth it + 1 \<or> d = maxDepth (config K)) \<and>
         queue (handleLink K i it l ls s) =
           queue s @ [\<lparr>url = l_url l, referrer = url it, depth = d,
                      sourcePages = sourcePages it @ [url it]\<rparr>]))"
  by (auto simp: handleLink_def nextRound_def push_def finish_def storeIn_def split: list.splits)



lemma run_append:
  "run K (xs @ ys) s = (case run K xs s of None \<Rightarrow> None | Some s' \<Rightarrow> run K ys s')"
  by (induction xs arbitrary: s) (auto split: option.splits)

section \<open>Invariants of a crawl\<close>

text \<open>
  Three invariants of the step relation. \<open>admittedInv\<close>: no visited URL is excluded, a
  task beyond its visited check has its URL in the visited set, and a task that made a
  second request or is in the link loop has an inbound URL. \<open>requestInv\<close>: the shape of
  the request log for each URL, and at most one task waits for an answer for a URL.
  \<open>depthInv\<close>: the depths of the queue entries and the admission of the visited URLs.
\<close>

lemma admittedInv_init: "admittedInv K (init K)"
  by (simp add: admittedInv_def init_def)

lemma waiting_visited:
  "admittedInv K s \<Longrightarrow> i < length (tasks s) \<Longrightarrow> tasks s ! i = (it, p) \<Longrightarrow> waiting p
     \<Longrightarrow> url it \<in> visitedUrls s"
  unfolding admittedInv_def by blast

lemma admittedInv_step:
  assumes inv: "admittedInv K s" and ex: "exec K ev s = Some s'"
  shows "admittedInv K s'"
  using ex
proof (cases rule: exec_effect)
  case (spawn d)
  have old: "\<And>i it p. i < length (tasks s') \<Longrightarrow> tasks s' ! i = (it, p) \<Longrightarrow> p \<noteq> Start
          \<Longrightarrow> i < length (tasks s) \<and> tasks s ! i = (it, p)"
    unfolding spawn(1) by (rule nth_grown)
  show ?thesis
    unfolding admittedInv_def
  proof (intro conjI allI impI)
    fix u assume "u \<in> visitedUrls s'"
    then show "\<not> isUrlExcluded K u" using inv spawn(2) by (simp add: admittedInv_def)
  next
    fix i it p
    assume a: "i < length (tasks s') \<and> tasks s' ! i = (it, p) \<and> (waiting p \<or> (\<exists>ls. p = Extract ls))"
    then have "p \<noteq> Start" by auto
    with a old have "i < length (tasks s) \<and> tasks s ! i = (it, p)" by blast
    with a inv show "url it \<in> visitedUrls s'" unfolding spawn(2) admittedInv_def by blast
  next
    fix i it ls
    assume a: "i < length (tasks s') \<and> tasks s' ! i = (it, Extract ls)"
    with old have "i < length (tasks s) \<and> tasks s ! i = (it, Extract ls)" by blast
    with inv show "isInboundLink K (url it)" unfolding admittedInv_def by blast
  next
    fix i it r
    assume a: "i < length (tasks s') \<and> tasks s' ! i = (it, AwaitFull r)"
    with old have "i < length (tasks s) \<and> tasks s ! i = (it, AwaitFull r)" by blast
    with inv show "isInboundLink K (url it)" unfolding admittedInv_def by blast
  qed
next
  case (finished i it p)
  have vis: "visitedUrls s \<subseteq> visitedUrls s'" using finished(5) by auto
  have new: "\<And>u. u \<in> visitedUrls s' \<Longrightarrow> u \<notin> visitedUrls s \<Longrightarrow> \<not> isUrlExcluded K u"
    using finished(5) by (auto dest: shouldCrawlUrl_not_excluded)
  have old: "\<And>j it' p'. j < length (tasks s') \<Longrightarrow> tasks s' ! j = (it', p') \<Longrightarrow> p' \<noteq> Finished
          \<Longrightarrow> j < length (tasks s) \<and> tasks s ! j = (it', p')"
    unfolding finished(3) using nth_update_cases [OF finished(1)] by blast
  show ?thesis
    unfolding admittedInv_def
  proof (intro conjI allI impI)
    fix u assume "u \<in> visitedUrls s'"
    then show "\<not> isUrlExcluded K u" using inv new by (auto simp: admittedInv_def)
  next
    fix j it' p'
    assume a: "j < length (tasks s') \<and> tasks s' ! j = (it', p') \<and> (waiting p' \<or> (\<exists>ls. p' = Extract ls))"
    then have "p' \<noteq> Finished" by auto
    with a old have "j < length (tasks s) \<and> tasks s ! j = (it', p')" by blast
    with a inv vis show "url it' \<in> visitedUrls s'" unfolding admittedInv_def by blast
  next
    fix j it' ls
    assume a: "j < length (tasks s') \<and> tasks s' ! j = (it', Extract ls)"
    with old have "j < length (tasks s) \<and> tasks s ! j = (it', Extract ls)" by blast
    with inv show "isInboundLink K (url it')" unfolding admittedInv_def by blast
  next
    fix j it' r
    assume a: "j < length (tasks s') \<and> tasks s' ! j = (it', AwaitFull r)"
    with old have "j < length (tasks s) \<and> tasks s ! j = (it', AwaitFull r)" by blast
    with inv show "isInboundLink K (url it')" unfolding admittedInv_def by blast
  qed
next
  case (claimed i it)
  have old: "\<And>j it' p'. j < length (tasks s') \<Longrightarrow> tasks s' ! j = (it', p') \<Longrightarrow>
          (j = i \<and> it' = it \<and> p' = AwaitResponse HEAD) \<or> (j < length (tasks s) \<and> tasks s ! j = (it', p'))"
    unfolding claimed(5) using nth_update_cases [OF claimed(1)] by blast
  show ?thesis
    unfolding admittedInv_def
  proof (intro conjI allI impI)
    fix u assume "u \<in> visitedUrls s'"
    then show "\<not> isUrlExcluded K u"
      using inv claimed(3,7) by (auto simp: admittedInv_def dest: shouldCrawlUrl_not_excluded)
  next
    fix j it' p'
    assume a: "j < length (tasks s') \<and> tasks s' ! j = (it', p') \<and> (waiting p' \<or> (\<exists>ls. p' = Extract ls))"
    with old [of j it' p'] inv show "url it' \<in> visitedUrls s'"
      unfolding claimed(7) admittedInv_def by blast
  next
    fix j it' ls
    assume a: "j < length (tasks s') \<and> tasks s' ! j = (it', Extract ls)"
    with old [of j it' "Extract ls"] inv show "isInboundLink K (url it')"
      unfolding admittedInv_def by blast
  next
    fix j it' r
    assume a: "j < length (tasks s') \<and> tasks s' ! j = (it', AwaitFull r)"
    with old [of j it' "AwaitFull r"] inv show "isInboundLink K (url it')"
      unfolding admittedInv_def by blast
  qed
next
  case (escalated i it m r)
  have here: "url it \<in> visitedUrls s"
    using inv escalated(1,2) unfolding admittedInv_def by (metis waiting.simps(1))
  have old: "\<And>j it' p'. j < length (tasks s') \<Longrightarrow> tasks s' ! j = (it', p') \<Longrightarrow>
          (j = i \<and> it' = it \<and> p' = AwaitFull r) \<or> (j < length (tasks s) \<and> tasks s ! j = (it', p'))"
    unfolding escalated(4) using nth_update_cases [OF escalated(1)] by blast
  show ?thesis
    unfolding admittedInv_def
  proof (intro conjI allI impI)
    fix u assume "u \<in> visitedUrls s'"
    then show "\<not> isUrlExcluded K u"
      using inv escalated(6) by (auto simp: admittedInv_def)
  next
    fix j it' p'
    assume a: "j < length (tasks s') \<and> tasks s' ! j = (it', p') \<and> (waiting p' \<or> (\<exists>ls. p' = Extract ls))"
    with old [of j it' p'] inv here show "url it' \<in> visitedUrls s'"
      unfolding escalated(6) admittedInv_def by blast
  next
    fix j it' ls
    assume a: "j < length (tasks s') \<and> tasks s' ! j = (it', Extract ls)"
    with old [of j it' "Extract ls"] inv show "isInboundLink K (url it')"
      unfolding admittedInv_def by blast
  next
    fix j it' r'
    assume a: "j < length (tasks s') \<and> tasks s' ! j = (it', AwaitFull r')"
    with old [of j it' "AwaitFull r'"] inv escalated(3) show "isInboundLink K (url it')"
      unfolding admittedInv_def by blast
  qed
next
  case (extracting i it p ls)
  have here: "url it \<in> visitedUrls s"
    using inv extracting(1,2,3) unfolding admittedInv_def by blast
  have old: "\<And>j it' p'. j < length (tasks s') \<Longrightarrow> tasks s' ! j = (it', p') \<Longrightarrow>
          (j = i \<and> it' = it \<and> p' = Extract ls) \<or> (j < length (tasks s) \<and> tasks s ! j = (it', p'))"
    unfolding extracting(5) using nth_update_cases [OF extracting(1)] by blast
  show ?thesis
    unfolding admittedInv_def
  proof (intro conjI allI impI)
    fix u assume "u \<in> visitedUrls s'"
    then show "\<not> isUrlExcluded K u"
      using inv extracting(7) by (auto simp: admittedInv_def)
  next
    fix j it' p'
    assume a: "j < length (tasks s') \<and> tasks s' ! j = (it', p') \<and> (waiting p' \<or> (\<exists>ls. p' = Extract ls))"
    with old [of j it' p'] inv here show "url it' \<in> visitedUrls s'"
      unfolding extracting(7) admittedInv_def by blast
  next
    fix j it' ls'
    assume a: "j < length (tasks s') \<and> tasks s' ! j = (it', Extract ls')"
    with old [of j it' "Extract ls'"] inv extracting(4) show "isInboundLink K (url it')"
      unfolding admittedInv_def by blast
  next
    fix j it' r'
    assume a: "j < length (tasks s') \<and> tasks s' ! j = (it', AwaitFull r')"
    with old [of j it' "AwaitFull r'"] inv show "isInboundLink K (url it')"
      unfolding admittedInv_def by blast
  qed
next
  case (advanced i it l ls)
  have here: "url it \<in> visitedUrls s" "isInboundLink K (url it)"
    using inv advanced(1,2) unfolding admittedInv_def by blast+
  have old: "\<And>j it' p'. j < length (tasks s') \<Longrightarrow> tasks s' ! j = (it', p') \<Longrightarrow>
          (j = i \<and> it' = it \<and> p' = Extract ls) \<or> (j < length (tasks s) \<and> tasks s ! j = (it', p'))"
    unfolding advanced(3) using nth_update_cases [OF advanced(1)] by blast
  show ?thesis
    unfolding admittedInv_def
  proof (intro conjI allI impI)
    fix u assume "u \<in> visitedUrls s'"
    then show "\<not> isUrlExcluded K u"
      using inv advanced(5) by (auto simp: admittedInv_def)
  next
    fix j it' p'
    assume a: "j < length (tasks s') \<and> tasks s' ! j = (it', p') \<and> (waiting p' \<or> (\<exists>ls. p' = Extract ls))"
    with old [of j it' p'] inv here show "url it' \<in> visitedUrls s'"
      unfolding advanced(5) admittedInv_def by blast
  next
    fix j it' ls'
    assume a: "j < length (tasks s') \<and> tasks s' ! j = (it', Extract ls')"
    with old [of j it' "Extract ls'"] inv here show "isInboundLink K (url it')"
      unfolding admittedInv_def by blast
  next
    fix j it' r'
    assume a: "j < length (tasks s') \<and> tasks s' ! j = (it', AwaitFull r')"
    with old [of j it' "AwaitFull r'"] inv show "isInboundLink K (url it')"
      unfolding admittedInv_def by blast
  qed
qed

lemma requestsFor_snoc:
  "requestsFor u (rs @ [q]) = requestsFor u rs @ (if target q = u then [q] else [])"
  by (simp add: requestsFor_def)

lemma requestInv_init: "requestInv (init K)"
  by (simp add: requestInv_def init_def requestsFor_def)

lemma requestInv_awaitResponse:
  "requestInv s \<Longrightarrow> j < length (tasks s) \<Longrightarrow> tasks s ! j = (it, AwaitResponse m)
     \<Longrightarrow> requestsFor (url it) (net s) = [Initial HEAD (url it)]"
  unfolding requestInv_def by blast

lemma requestInv_awaitFull:
  "requestInv s \<Longrightarrow> j < length (tasks s) \<Longrightarrow> tasks s ! j = (it, AwaitFull r)
     \<Longrightarrow> requestsFor (url it) (net s) = [Initial HEAD (url it), Escalated (url it)]"
  unfolding requestInv_def by blast

lemma waiting_requested:
  assumes "requestInv s" "j < length (tasks s)" "tasks s ! j = (it, p)" "waiting p"
  shows "requestsFor (url it) (net s) \<noteq> []"
proof (cases p)
  case (AwaitResponse m)
  with assms have "requestsFor (url it) (net s) = [Initial HEAD (url it)]"
    unfolding requestInv_def by blast
  then show ?thesis by simp
next
  case (AwaitFull r)
  with assms have "requestsFor (url it) (net s) = [Initial HEAD (url it), Escalated (url it)]"
    unfolding requestInv_def by blast
  then show ?thesis by simp
qed (use assms in auto)

text \<open>Steps that issue no request and make no task wait that did not wait before.\<close>

lemma requestInv_quiet:
  assumes inv: "requestInv s"
    and net: "net s' = net s"
    and vis: "visitedUrls s \<subseteq> visitedUrls s'"
    and old: "\<And>j it p. j < length (tasks s') \<Longrightarrow> tasks s' ! j = (it, p) \<Longrightarrow> waiting p
               \<Longrightarrow> j < length (tasks s) \<and> tasks s ! j = (it, p)"
  shows "requestInv s'"
  unfolding requestInv_def
proof (intro conjI allI impI)
  fix u assume "requestsFor u (net s') \<noteq> []"
  then show "u \<in> visitedUrls s'" using inv vis unfolding net requestInv_def by blast
next
  fix u
  show "requestsFor u (net s') = [] \<or> requestsFor u (net s') = [Initial HEAD u]
        \<or> requestsFor u (net s') = [Initial HEAD u, Escalated u]"
    using inv unfolding net requestInv_def by blast
next
  fix j it m
  assume a: "j < length (tasks s') \<and> tasks s' ! j = (it, AwaitResponse m)"
  then have "j < length (tasks s) \<and> tasks s ! j = (it, AwaitResponse m)" using old by simp
  then show "requestsFor (url it) (net s') = [Initial HEAD (url it)]"
    using inv unfolding net requestInv_def by blast
next
  fix j it r
  assume a: "j < length (tasks s') \<and> tasks s' ! j = (it, AwaitFull r)"
  then have "j < length (tasks s) \<and> tasks s ! j = (it, AwaitFull r)" using old by simp
  then show "requestsFor (url it) (net s') = [Initial HEAD (url it), Escalated (url it)]"
    using inv unfolding net requestInv_def by blast
next
  fix i j
  assume a: "i < length (tasks s') \<and> j < length (tasks s') \<and> waiting (snd (tasks s' ! i)) \<and>
             waiting (snd (tasks s' ! j)) \<and> url (fst (tasks s' ! i)) = url (fst (tasks s' ! j))"
  have "i < length (tasks s) \<and> tasks s ! i = tasks s' ! i"
    using a old [of i "fst (tasks s' ! i)" "snd (tasks s' ! i)"] by simp
  moreover have "j < length (tasks s) \<and> tasks s ! j = tasks s' ! j"
    using a old [of j "fst (tasks s' ! j)" "snd (tasks s' ! j)"] by simp
  ultimately show "i = j" using a inv unfolding requestInv_def by metis
qed

lemma requestInv_step:
  assumes inv: "requestInv s" and ex: "exec K ev s = Some s'"
  shows "requestInv s'"
  using ex
proof (cases rule: exec_effect)
  case (spawn d)
  show ?thesis
  proof (rule requestInv_quiet [OF inv spawn(3)])
    show "visitedUrls s \<subseteq> visitedUrls s'" using spawn(2) by simp
  next
    fix j it p
    assume a: "j < length (tasks s')" "tasks s' ! j = (it, p)" "waiting p"
    then have "p \<noteq> Start" by auto
    with a show "j < length (tasks s) \<and> tasks s ! j = (it, p)"
      unfolding spawn(1) by (intro nth_grown)
  qed
next
  case (finished i it p)
  show ?thesis
  proof (rule requestInv_quiet [OF inv finished(4)])
    show "visitedUrls s \<subseteq> visitedUrls s'" using finished(5) by auto
  next
    fix j it' p'
    assume "j < length (tasks s')" "tasks s' ! j = (it', p')" "waiting p'"
    then show "j < length (tasks s) \<and> tasks s ! j = (it', p')"
      unfolding finished(3) using nth_update_cases [OF finished(1)] by fastforce
  qed
next
  case (extracting i it p ls)
  show ?thesis
  proof (rule requestInv_quiet [OF inv extracting(6)])
    show "visitedUrls s \<subseteq> visitedUrls s'" using extracting(7) by simp
  next
    fix j it' p'
    assume "j < length (tasks s')" "tasks s' ! j = (it', p')" "waiting p'"
    then show "j < length (tasks s) \<and> tasks s ! j = (it', p')"
      unfolding extracting(5) using nth_update_cases [OF extracting(1)] by fastforce
  qed
next
  case (advanced i it l ls)
  show ?thesis
  proof (rule requestInv_quiet [OF inv advanced(4)])
    show "visitedUrls s \<subseteq> visitedUrls s'" using advanced(5) by simp
  next
    fix j it' p'
    assume "j < length (tasks s')" "tasks s' ! j = (it', p')" "waiting p'"
    then show "j < length (tasks s) \<and> tasks s ! j = (it', p')"
      unfolding advanced(3) using nth_update_cases [OF advanced(1)] by fastforce
  qed
next
  case (claimed i it)
  have none: "requestsFor (url it) (net s) = []"
    using inv claimed(4) unfolding requestInv_def by blast
  have nowait: "\<And>j it' p'. j < length (tasks s) \<Longrightarrow> tasks s ! j = (it', p') \<Longrightarrow> waiting p'
                 \<Longrightarrow> url it' \<noteq> url it"
  proof -
    fix j it' p'
    assume a: "j < length (tasks s)" "tasks s ! j = (it', p')" "waiting p'"
    then have "requestsFor (url it') (net s) \<noteq> []"
      using inv by (intro waiting_requested)
    with none show "url it' \<noteq> url it" by auto
  qed
  have req: "\<And>u. requestsFor u (net s') =
               (if u = url it then [Initial HEAD u] else requestsFor u (net s))"
    unfolding claimed(6) using none by (auto simp: requestsFor_snoc)
  have old: "\<And>j it' p'. j < length (tasks s') \<Longrightarrow> tasks s' ! j = (it', p') \<Longrightarrow>
          (j = i \<and> it' = it \<and> p' = AwaitResponse HEAD) \<or> (j \<noteq> i \<and> j < length (tasks s) \<and> tasks s ! j = (it', p'))"
    unfolding claimed(5) using claimed(1) by (auto simp: nth_list_update split: if_splits)
  show ?thesis
    unfolding requestInv_def
  proof (intro conjI allI impI)
    fix u assume "requestsFor u (net s') \<noteq> []"
    then show "u \<in> visitedUrls s'"
      using inv unfolding req claimed(7) requestInv_def by (auto split: if_splits)
  next
    fix u
    show "requestsFor u (net s') = [] \<or> requestsFor u (net s') = [Initial HEAD u]
          \<or> requestsFor u (net s') = [Initial HEAD u, Escalated u]"
      using inv unfolding req requestInv_def by auto
  next
    fix j it' m
    assume a: "j < length (tasks s') \<and> tasks s' ! j = (it', AwaitResponse m)"
    from old [of j it' "AwaitResponse m"] a
    have "(j = i \<and> it' = it \<and> AwaitResponse m = AwaitResponse HEAD) \<or>
          (j \<noteq> i \<and> j < length (tasks s) \<and> tasks s ! j = (it', AwaitResponse m))" by blast
    then show "requestsFor (url it') (net s') = [Initial HEAD (url it')]"
    proof
      assume "j = i \<and> it' = it \<and> AwaitResponse m = AwaitResponse HEAD"
      then show ?thesis by (simp add: req)
    next
      assume b: "j \<noteq> i \<and> j < length (tasks s) \<and> tasks s ! j = (it', AwaitResponse m)"
      then have "url it' \<noteq> url it" using nowait [of j it' "AwaitResponse m"] by simp
      then show ?thesis using b requestInv_awaitResponse [OF inv, of j it' m] by (simp add: req)
    qed
  next
    fix j it' r
    assume a: "j < length (tasks s') \<and> tasks s' ! j = (it', AwaitFull r)"
    from old [of j it' "AwaitFull r"] a
    have b: "j \<noteq> i \<and> j < length (tasks s) \<and> tasks s ! j = (it', AwaitFull r)" by auto
    then have "url it' \<noteq> url it" using nowait [of j it' "AwaitFull r"] by simp
    then show "requestsFor (url it') (net s') = [Initial HEAD (url it'), Escalated (url it')]"
      using b requestInv_awaitFull [OF inv, of j it' r] by (simp add: req)
  next
    fix j k
    assume a: "j < length (tasks s') \<and> k < length (tasks s') \<and> waiting (snd (tasks s' ! j)) \<and>
             waiting (snd (tasks s' ! k)) \<and> url (fst (tasks s' ! j)) = url (fst (tasks s' ! k))"
    have oj: "(j = i \<and> fst (tasks s' ! j) = it) \<or> (j \<noteq> i \<and> j < length (tasks s) \<and> tasks s ! j = tasks s' ! j)"
      using a old [of j "fst (tasks s' ! j)" "snd (tasks s' ! j)"] by auto
    have ok: "(k = i \<and> fst (tasks s' ! k) = it) \<or> (k \<noteq> i \<and> k < length (tasks s) \<and> tasks s ! k = tasks s' ! k)"
      using a old [of k "fst (tasks s' ! k)" "snd (tasks s' ! k)"] by auto
    show "j = k"
    proof (cases "j = i")
      case True
      show ?thesis
      proof (cases "k = i")
        case True with \<open>j = i\<close> show ?thesis by simp
      next
        case False
        with ok have "k < length (tasks s) \<and> tasks s ! k = tasks s' ! k" by simp
        then have "url (fst (tasks s' ! k)) \<noteq> url it"
          using a nowait [of k "fst (tasks s' ! k)" "snd (tasks s' ! k)"] by simp
        with a oj True show ?thesis by simp
      qed
    next
      case False
      with oj have j: "j < length (tasks s) \<and> tasks s ! j = tasks s' ! j" by simp
      show ?thesis
      proof (cases "k = i")
        case True
        have "url (fst (tasks s' ! j)) \<noteq> url it"
          using a j nowait [of j "fst (tasks s' ! j)" "snd (tasks s' ! j)"] by simp
        with a ok True show ?thesis by simp
      next
        case False
        with ok have "k < length (tasks s) \<and> tasks s ! k = tasks s' ! k" by simp
        with j a inv show ?thesis unfolding requestInv_def by metis
      qed
    qed
  qed
next
  case (escalated i it m r)
  have one: "requestsFor (url it) (net s) = [Initial HEAD (url it)]"
    using inv escalated(1,2) by (rule requestInv_awaitResponse)
  have only: "\<And>j it' p'. j < length (tasks s) \<Longrightarrow> tasks s ! j = (it', p') \<Longrightarrow> waiting p'
                 \<Longrightarrow> url it' = url it \<Longrightarrow> j = i"
  proof -
    fix j it' p'
    assume a: "j < length (tasks s)" "tasks s ! j = (it', p')" "waiting p'" "url it' = url it"
    have "waiting (snd (tasks s ! i))" "url (fst (tasks s ! i)) = url it"
      using escalated(2) by simp_all
    with a escalated(1) inv show "j = i" unfolding requestInv_def
      by (metis fst_conv snd_conv)
  qed
  have req: "\<And>u. requestsFor u (net s') =
               (if u = url it then [Initial HEAD u, Escalated u] else requestsFor u (net s))"
    unfolding escalated(5) using one by (auto simp: requestsFor_snoc)
  have old: "\<And>j it' p'. j < length (tasks s') \<Longrightarrow> tasks s' ! j = (it', p') \<Longrightarrow>
          (j = i \<and> it' = it \<and> p' = AwaitFull r) \<or> (j \<noteq> i \<and> j < length (tasks s) \<and> tasks s ! j = (it', p'))"
    unfolding escalated(4) using escalated(1) by (auto simp: nth_list_update split: if_splits)
  show ?thesis
    unfolding requestInv_def
  proof (intro conjI allI impI)
    fix u assume "requestsFor u (net s') \<noteq> []"
    then show "u \<in> visitedUrls s'"
      using inv one unfolding req escalated(6) requestInv_def by (auto split: if_splits)
  next
    fix u
    show "requestsFor u (net s') = [] \<or> requestsFor u (net s') = [Initial HEAD u]
          \<or> requestsFor u (net s') = [Initial HEAD u, Escalated u]"
      using inv unfolding req requestInv_def by auto
  next
    fix j it' m'
    assume a: "j < length (tasks s') \<and> tasks s' ! j = (it', AwaitResponse m')"
    from old [of j it' "AwaitResponse m'"] a
    have b: "j \<noteq> i \<and> j < length (tasks s) \<and> tasks s ! j = (it', AwaitResponse m')" by auto
    then have "url it' \<noteq> url it" using only [of j it' "AwaitResponse m'"] by auto
    then show "requestsFor (url it') (net s') = [Initial HEAD (url it')]"
      using b requestInv_awaitResponse [OF inv, of j it' m'] by (simp add: req)
  next
    fix j it' r'
    assume a: "j < length (tasks s') \<and> tasks s' ! j = (it', AwaitFull r')"
    from old [of j it' "AwaitFull r'"] a
    have "(j = i \<and> it' = it \<and> AwaitFull r' = AwaitFull r) \<or>
          (j \<noteq> i \<and> j < length (tasks s) \<and> tasks s ! j = (it', AwaitFull r'))" by blast
    then show "requestsFor (url it') (net s') = [Initial HEAD (url it'), Escalated (url it')]"
    proof
      assume "j = i \<and> it' = it \<and> AwaitFull r' = AwaitFull r"
      then show ?thesis by (simp add: req)
    next
      assume b: "j \<noteq> i \<and> j < length (tasks s) \<and> tasks s ! j = (it', AwaitFull r')"
      then have "url it' \<noteq> url it" using only [of j it' "AwaitFull r'"] by auto
      then show ?thesis using b requestInv_awaitFull [OF inv, of j it' r'] by (simp add: req)
    qed
  next
    fix j k
    assume a: "j < length (tasks s') \<and> k < length (tasks s') \<and> waiting (snd (tasks s' ! j)) \<and>
             waiting (snd (tasks s' ! k)) \<and> url (fst (tasks s' ! j)) = url (fst (tasks s' ! k))"
    have len: "length (tasks s') = length (tasks s)" unfolding escalated(4) by simp
    have same: "\<And>n. n < length (tasks s) \<Longrightarrow> waiting (snd (tasks s' ! n)) \<Longrightarrow>
             waiting (snd (tasks s ! n)) \<and> url (fst (tasks s ! n)) = url (fst (tasks s' ! n))"
      unfolding escalated(4) using escalated(1,2) by (auto simp: nth_list_update split: if_splits)
    from a same [of j] same [of k] len inv show "j = k"
      unfolding requestInv_def by metis
  qed
qed

lemma items_update:
  "i < length (tasks s) \<Longrightarrow> tasks s ! i = (it, p) \<Longrightarrow> tasks s' = (tasks s)[i := (it, p')]
     \<Longrightarrow> queue s' = queue s \<Longrightarrow> items s' = items s"
proof -
  assume a: "i < length (tasks s)" "tasks s ! i = (it, p)" "tasks s' = (tasks s)[i := (it, p')]"
    "queue s' = queue s"
  have "map fst ((tasks s)[i := (it, p')]) = (map fst (tasks s))[i := it]"
    by (simp add: map_update)
  also have "\<dots> = map fst (tasks s)"
    using a(1,2) by (metis fst_conv list_update_id nth_map)
  finally have "fst ` set (tasks s') = fst ` set (tasks s)"
    using a(3) by (metis set_map)
  then show ?thesis by (simp add: items_def a(4))
qed

lemma items_moved:
  assumes "i < length (tasks s)" "tasks s ! i = (it, p)" "tasks s' = (tasks s)[i := (it, p')]"
  shows "items s' \<subseteq> items s \<union> set (queue s')"
proof -
  have "map fst ((tasks s)[i := (it, p')]) = (map fst (tasks s))[i := it]"
    by (simp add: map_update)
  also have "\<dots> = map fst (tasks s)"
    using assms(1,2) by (metis fst_conv list_update_id nth_map)
  finally have "fst ` set (tasks s') = fst ` set (tasks s)"
    using assms(3) by (metis set_map)
  then show ?thesis by (auto simp: items_def)
qed

lemma processQueue_items: "items (processQueue K s) = items s"
proof (cases "queue s = [] \<and> activeTasks s = 0")
  case True
  then show ?thesis by (simp add: processQueue_def items_def)
next
  case False
  obtain q a ts where f: "fill (concurrency (config K)) (queue s) (activeTasks s) (tasks s) = (q, a, ts)"
    by (cases "fill (concurrency (config K)) (queue s) (activeTasks s) (tasks s)") auto
  then obtain d where d: "ts = tasks s @ map (\<lambda>x. (x, Start)) d" "queue s = d @ q"
    using fill_tasks by blast
  have "items (processQueue K s) = set q \<union> fst ` set ts"
    using False f by (auto simp: processQueue_def items_def)
  also have "\<dots> = items s"
    unfolding d items_def by (auto simp: image_Un image_image)
  finally show ?thesis .
qed

lemma depthInv_init: "depthInv K (init K)"
  by (simp add: depthInv_def init_def items_def)

lemma depthInv_extract:
  "depthInv K s \<Longrightarrow> j < length (tasks s) \<Longrightarrow> tasks s ! j = (it, Extract ls)
     \<Longrightarrow> depth it < maxDepth (config K) \<and> url it \<in> visitedUrls s"
  unfolding depthInv_def by blast

lemma depthInv_move:
  assumes inv: "depthInv K s"
    and i: "i < length (tasks s)" "tasks s ! i = (it, p)"
    and tk: "tasks s' = (tasks s)[i := (it, p')]"
    and its: "items s' \<subseteq> items s \<union> new"
    and new: "\<And>x. x \<in> new \<Longrightarrow> 0 \<le> depth x \<and> (depth x \<le> maxDepth (config K) \<or> depth x = 0)"
    and vis: "visitedUrls s' = visitedUrls s"
    and ext: "\<And>ls. p' = Extract ls \<Longrightarrow> depth it < maxDepth (config K) \<and> url it \<in> visitedUrls s"
  shows "depthInv K s'"
  unfolding depthInv_def
proof (intro conjI allI impI)
  fix x assume "x \<in> items s'"
  then have "x \<in> items s \<or> x \<in> new" using its by blast
  then show "0 \<le> depth x" "depth x \<le> maxDepth (config K) \<or> depth x = 0"
    using inv new unfolding depthInv_def by blast+
next
  fix u assume "u \<in> visitedUrls s'"
  then have "0 \<le> maxDepth (config K) \<and> \<not> isUrlExcluded K u \<and>
         \<not> (skipDataImages (config K) \<and> startsWith u ''data:image'')"
    using inv unfolding vis depthInv_def by blast
  then show "0 \<le> maxDepth (config K)" "\<not> isUrlExcluded K u"
    "\<not> (skipDataImages (config K) \<and> startsWith u ''data:image'')" by blast+
next
  fix j it' ls assume a: "j < length (tasks s') \<and> tasks s' ! j = (it', Extract ls)"
  then have "(j = i \<and> (it', Extract ls) = (it, p')) \<or> (j < length (tasks s) \<and> tasks s ! j = (it', Extract ls))"
    unfolding tk using nth_update_cases [OF i(1)] by blast
  then have b: "depth it' < maxDepth (config K) \<and> url it' \<in> visitedUrls s"
  proof
    assume "j = i \<and> (it', Extract ls) = (it, p')"
    then show ?thesis using ext [of ls] by simp
  next
    assume "j < length (tasks s) \<and> tasks s ! j = (it', Extract ls)"
    then show ?thesis using depthInv_extract [OF inv] by blast
  qed
  then show "depth it' < maxDepth (config K)" by simp
  from b show "url it' \<in> visitedUrls s'" by (simp add: vis)
qed

lemma depthInv_step:
  assumes inv: "depthInv K s" and adm: "admittedInv K s" and ex: "exec K ev s = Some s'"
  shows "depthInv K s'"
  using ex
proof (cases rule: exec_cases)
  case Timer
  have "items s' = items (s\<lparr>timers := timers s - 1\<rparr>)"
    unfolding Timer(3) by (rule processQueue_items)
  then have "items s' = items s" by (simp add: items_def)
  moreover have "visitedUrls s' = visitedUrls s" using Timer by simp
  moreover have "\<And>i it ls. i < length (tasks s') \<Longrightarrow> tasks s' ! i = (it, Extract ls)
      \<Longrightarrow> i < length (tasks s) \<and> tasks s ! i = (it, Extract ls)"
    using processQueue_tasks_old [of _ K "s\<lparr>timers := timers s - 1\<rparr>"] Timer by simp
  ultimately show ?thesis using inv unfolding depthInv_def by metis
next
  case (Resume i now it)
  have it: "it \<in> items s"
    using Resume(2,3) by (metis fst_conv image_eqI items_def UnI2 nth_mem)
  then have d0: "0 \<le> depth it" using inv unfolding depthInv_def by blast
  have tk: "tasks s' = (tasks s)[i := (it, Finished)] \<or> tasks s' = (tasks s)[i := (it, AwaitResponse HEAD)]"
    and q: "queue s' = queue s"
    and vis: "visitedUrls s' = visitedUrls s \<or>
              (shouldCrawlUrl K (url it) (depth it) \<and> visitedUrls s' = insert (url it) (visitedUrls s))"
    using Resume(4)
    by (auto simp: resume_def finish_def mergeReferrer_def claim_def storeIn_def request_def)
  have items: "items s' = items s"
    using tk items_update [OF Resume(2,3) _ q] by blast
  have ext: "\<And>j it' ls. j < length (tasks s') \<Longrightarrow> tasks s' ! j = (it', Extract ls)
      \<Longrightarrow> j < length (tasks s) \<and> tasks s ! j = (it', Extract ls)"
    using tk nth_update_cases [OF Resume(2)] by (metis Pair_inject pc.distinct(17) pc.distinct(11) pc.distinct(19))
  show ?thesis
    unfolding depthInv_def items
  proof (intro conjI allI impI)
    fix x assume "x \<in> items s"
    then show "0 \<le> depth x" "depth x \<le> maxDepth (config K) \<or> depth x = 0"
      using inv unfolding depthInv_def by blast+
  next
    fix u assume u: "u \<in> visitedUrls s'"
    show "0 \<le> maxDepth (config K)"
      using u vis inv d0 unfolding depthInv_def shouldCrawlUrl_iff by force
    show "\<not> isUrlExcluded K u"
      using u vis inv unfolding depthInv_def shouldCrawlUrl_iff by auto
    show "\<not> (skipDataImages (config K) \<and> startsWith u ''data:image'')"
      using u vis inv unfolding depthInv_def shouldCrawlUrl_iff by auto
  next
    fix j it' ls assume "j < length (tasks s') \<and> tasks s' ! j = (it', Extract ls)"
    then have "j < length (tasks s) \<and> tasks s ! j = (it', Extract ls)" using ext by blast
    then have a: "depth it' < maxDepth (config K) \<and> url it' \<in> visitedUrls s"
      using inv unfolding depthInv_def by blast
    then show "depth it' < maxDepth (config K)" by simp
    from a vis show "url it' \<in> visitedUrls s'" by auto
  qed
next
  case (Response i r now it m)
  have v: "url it \<in> visitedUrls s"
    using adm Response(2,3) by (rule waiting_visited) simp
  obtain p' where p': "tasks s' = (tasks s)[i := (it, p')]"
      "\<forall>ls. p' = Extract ls \<longrightarrow> depth it < maxDepth (config K)"
    and q: "queue s' = queue s" and vis: "visitedUrls s' = visitedUrls s"
    using respond_move [of K i it m r now s] Response(4) by auto
  show ?thesis
  proof (rule depthInv_move [OF inv Response(2,3) p'(1) _ _ vis])
    show "items s' \<subseteq> items s \<union> {}"
      using items_moved [OF Response(2,3) p'(1)] q by (auto simp: items_def)
  qed (use p'(2) v in auto)
next
  case (Full i r now it r0)
  have v: "url it \<in> visitedUrls s"
    using adm Full(2,3) by (rule waiting_visited) simp
  obtain p' where p': "tasks s' = (tasks s)[i := (it, p')]"
      "\<forall>ls. p' = Extract ls \<longrightarrow> depth it < maxDepth (config K)"
    and q: "queue s' = queue s" and vis: "visitedUrls s' = visitedUrls s"
    using afterFetch_move [of K i it "r0\<lparr>body := body r\<rparr>" now s] Full(4)
    by (auto simp: respondFull_def)
  show ?thesis
  proof (rule depthInv_move [OF inv Full(2,3) p'(1) _ _ vis])
    show "items s' \<subseteq> items s \<union> {}"
      using items_moved [OF Full(2,3) p'(1)] q by (auto simp: items_def)
  qed (use p'(2) v in auto)
next
  case (Failure i e now it)
  obtain p where p: "tasks s ! i = (it, p)" using Failure(3) by blast
  have tk: "tasks s' = (tasks s)[i := (it, Finished)]"
    and q: "queue s' = queue s" and vis: "visitedUrls s' = visitedUrls s"
    using fail_move [of K i it e now s] Failure(4) by auto
  show ?thesis
  proof (rule depthInv_move [OF inv Failure(2) p tk _ _ vis])
    show "items s' \<subseteq> items s \<union> {}"
      using items_moved [OF Failure(2) p tk] q by (auto simp: items_def)
  qed auto
next
  case (Link i it l ls)
  have here: "depth it < maxDepth (config K)" "url it \<in> visitedUrls s"
    using inv Link(2,3) unfolding depthInv_def by blast+
  have it: "it \<in> items s"
    using Link(2,3) by (metis fst_conv image_eqI items_def UnI2 nth_mem)
  then have d0: "0 \<le> depth it" using inv unfolding depthInv_def by blast
  have m0: "0 \<le> maxDepth (config K)" using here(2) inv unfolding depthInv_def by blast
  obtain p' where p': "tasks s' = (tasks s)[i := (it, p')]" "p' = Finished \<or> p' = Extract ls"
    and vis: "visitedUrls s' = visitedUrls s"
    and q: "queue s' = queue s \<or>
      (\<exists>d. (d = depth it + 1 \<or> d = maxDepth (config K)) \<and>
         queue s' = queue s @ [\<lparr>url = l_url l, referrer = url it, depth = d,
                      sourcePages = sourcePages it @ [url it]\<rparr>])"
    using handleLink_move [of K i it l ls s] Link(4) by auto
  let ?new = "{x. depth x = depth it + 1 \<or> depth x = maxDepth (config K)}"
  show ?thesis
  proof (rule depthInv_move [OF inv Link(2,3) p'(1) _ _ vis])
    show "items s' \<subseteq> items s \<union> ?new"
      using items_moved [OF Link(2,3) p'(1)] q by (auto simp: items_def)
  next
    fix x :: item assume "x \<in> ?new"
    then show "0 \<le> depth x \<and> (depth x \<le> maxDepth (config K) \<or> depth x = 0)"
      using d0 m0 here(1) by auto
  next
    fix ls' assume "p' = Extract ls'"
    show "depth it < maxDepth (config K) \<and> url it \<in> visitedUrls s" using here by simp
  qed
qed

lemma escalated_inbound_step:
  assumes inv: "\<forall>u. Escalated u \<in> set (net s) \<longrightarrow> isInboundLink K u" and ex: "exec K ev s = Some s'"
  shows "\<forall>u. Escalated u \<in> set (net s') \<longrightarrow> isInboundLink K u"
  using ex by (cases rule: exec_effect) (use inv in auto)

lemma reachable_invariants:
  assumes "reachable K s"
  shows "admittedInv K s \<and> requestInv s \<and> depthInv K s \<and>
         (\<forall>u. Escalated u \<in> set (net s) \<longrightarrow> isInboundLink K u)"
  using assms
proof (induction rule: reachable.induct)
  case start
  show ?case
    using admittedInv_init [of K] requestInv_init [of K] depthInv_init [of K] by (simp add: init_def)
next
  case (step s ev s')
  then show ?case
    using admittedInv_step [of K s ev s'] requestInv_step [of s K ev s']
      depthInv_step [of K s ev s'] escalated_inbound_step [of s K ev s'] by blast
qed



lemma run_reachable: "reachable K s \<Longrightarrow> run K evs s = Some s' \<Longrightarrow> reachable K s'"
proof (induction evs arbitrary: s)
  case Nil
  then show ?case by simp
next
  case (Cons ev evs)
  then obtain s1 where s1: "exec K ev s = Some s1" "run K evs s1 = Some s'"
    by (auto split: option.splits)
  from Cons.prems(1) s1(1) have "reachable K s1" by (rule reachable.step)
  then show ?case using s1(2) by (rule Cons.IH)
qed

section \<open>Crawls of the example site\<close>

text \<open>
  The pure functions are evaluated on the URLs of the example once; the runs are then
  computed from the definitions of the steps.
\<close>

lemmas handlers = exec_def processQueue_def resume_fresh resume_visited resume_rejected mergeReferrer_def claim_def storeIn_def
  request_def finish_def respond_def respondFull_def afterFetch_def startLoop_def fail_def
  handleLink_def push_def nextRound_def

lemma example_config [simp]:
  "maxDepth (config exampleCrawler) = 3" "concurrency (config exampleCrawler) = 2"
  "websiteUrl (config exampleCrawler) = ''http://ex.com''"
  "skipDataImages (config exampleCrawler)"
  by (simp_all add: exampleCrawler_def exampleConfig_def)

lemma isHtmlResponse_body [simp]: "isHtmlResponse (r\<lparr>body := b\<rparr>) = isHtmlResponse r"
  by (simp add: isHtmlResponse_def contentTypeOf_def)

lemma htmlAnswer_simps [simp]: "isHtmlResponse (htmlAnswer d)" "body (htmlAnswer d) = d"
proof -
  have "includesStr ''text/html; charset=utf-8'' ''text/html''" by code_simp
  then show "isHtmlResponse (htmlAnswer d)"
    by (simp add: isHtmlResponse_def contentTypeOf_def htmlAnswer_def)
  show "body (htmlAnswer d) = d" by (simp add: htmlAnswer_def)
qed

lemma seedItem_url: "url seedItem = ''http://ex.com''"
  by (simp add: seedItem_def)

lemma seed_facts:
  "shouldCrawlUrl exampleCrawler ''http://ex.com'' 0"
  "isInboundLink exampleCrawler ''http://ex.com''"
  by code_simp+

lemma privatePage_links:
  "extractLinks exampleCrawler privatePage ''http://ex.com'' =
     [\<lparr>l_url = ''http://ex.com/private/a'', l_tag = ''a'', l_text = ''A'', l_alt = []\<rparr>,
      \<lparr>l_url = ''http://ex.com/private/b'', l_tag = ''a'', l_text = ''B'', l_alt = []\<rparr>]"
  by code_simp

lemma private_facts:
  "isInboundLink exampleCrawler ''http://ex.com/private/a''"
  "isInboundLink exampleCrawler ''http://ex.com/private/b''"
  "isUrlExcluded exampleCrawler ''http://ex.com/private/a''"
  "isUrlExcluded exampleCrawler ''http://ex.com/private/b''"
  "\<not> shouldCrawlUrl exampleCrawler ''http://ex.com/private/a'' 1"
  "\<not> shouldCrawlUrl exampleCrawler ''http://ex.com/private/b'' 1"
  by code_simp+

lemma private_fixed:
  "fixProtocolRelativeUrl ''http://ex.com/private/a'' = ''http://ex.com/private/a''"
  "fixProtocolRelativeUrl ''http://other.org/private/x'' = ''http://other.org/private/x''"
  "fixProtocolRelativeUrl ''http://ex.com'' = ''http://ex.com''"
  by code_simp+

lemma outboundPage_links:
  "extractLinks exampleCrawler outboundPage ''http://ex.com'' =
     [\<lparr>l_url = ''http://other.org/private/x'', l_tag = ''a'', l_text = ''X'', l_alt = []\<rparr>]"
  by code_simp


lemma twinPage_links:
  "extractLinks exampleCrawler twinPage ''http://ex.com'' =
     [\<lparr>l_url = ''http://ex.com/about'', l_tag = ''a'', l_text = ''About'', l_alt = []\<rparr>,
      \<lparr>l_url = ''http://ex.com/about'', l_tag = ''a'', l_text = ''Team'', l_alt = []\<rparr>]"
  by code_simp

lemma about_facts:
  "isInboundLink exampleCrawler ''http://ex.com/about''"
  "shouldCrawlUrl exampleCrawler ''http://ex.com/about'' 1"
  "fixProtocolRelativeUrl ''http://ex.com/about'' = ''http://ex.com/about''"
  by code_simp+


lemma privatePage_extracting:
  "\<exists>s. run exampleCrawler (fetchSeed privatePage) (init exampleCrawler) = Some s \<and>
     tasks s = [(seedItem, Extract
       [\<lparr>l_url = ''http://ex.com/private/a'', l_tag = ''a'', l_text = ''A'', l_alt = []\<rparr>,
        \<lparr>l_url = ''http://ex.com/private/b'', l_tag = ''a'', l_text = ''B'', l_alt = []\<rparr>])] \<and>
     visitedUrls s = {''http://ex.com''} \<and> queue s = []"
  by (simp add: fetchSeed_def init_def handlers seed_facts privatePage_links seedItem_def)

lemma privatePage_dispatched:
  "\<exists>s. run exampleCrawler (fetchSeed privatePage @ [Link 0, Link 0, Timer]) (init exampleCrawler) = Some s \<and>
     length (tasks s) = 3 \<and>
     tasks s ! 1 = (\<lparr>url = ''http://ex.com/private/a'', referrer = ''http://ex.com'', depth = 1,
                      sourcePages = [''http://ex.com'']\<rparr>, Start)"
  by (simp add: fetchSeed_def init_def handlers seed_facts privatePage_links private_facts)

lemma twoExcludedLinks_run:
  "\<exists>s. run exampleCrawler twoExcludedLinks (init exampleCrawler) = Some s \<and> summaries s = 2"
  by (simp add: twoExcludedLinks_def fetchSeed_def init_def handlers seed_facts privatePage_links
      private_facts)

lemma discoveredTwice_run:
  "\<exists>s. run exampleCrawler discoveredTwice (init exampleCrawler) = Some s \<and>
     tasks s ! 2 = (\<lparr>url = ''http://ex.com/about'', referrer = ''http://ex.com'', depth = 1,
                      sourcePages = [''http://ex.com'']\<rparr>, Start) \<and>
     length (tasks s) = 3 \<and>
     visitedUrls s = {''http://ex.com/about'', ''http://ex.com''} \<and>
     net s = [Initial HEAD ''http://ex.com'', Escalated ''http://ex.com'',
              Initial HEAD ''http://ex.com/about'']"
  by (simp add: discoveredTwice_def fetchSeed_def init_def handlers seed_facts twinPage_links
      about_facts)

lemma outboundPage_extracting:
  "\<exists>s. run exampleCrawler (fetchSeed outboundPage) (init exampleCrawler) = Some s \<and>
     tasks s = [(seedItem, Extract
       [\<lparr>l_url = ''http://other.org/private/x'', l_tag = ''a'', l_text = ''X'', l_alt = []\<rparr>])] \<and>
     visitedUrls s = {''http://ex.com''} \<and> queue s = [] \<and>
     net s = [Initial HEAD ''http://ex.com'', Escalated ''http://ex.com'']"
  by (simp add: fetchSeed_def init_def handlers seed_facts outboundPage_links seedItem_def)







lemma dataImageCrawler_started:
  "\<exists>s. run dataImageCrawler [Timer] (init dataImageCrawler) = Some s \<and>
     tasks s = [(\<lparr>url = ''data:image/png;base64,AAAA'', referrer = [], depth = 0, sourcePages = []\<rparr>, Start)] \<and>
     redis s = emptyStore \<and> net s = [] \<and> visitedUrls s = {}"
  by (simp add: init_def exec_def processQueue_def dataImageCrawler_def exampleConfig_def)

section \<open>One fetch for each URL\<close>

text \<open>
  C1. In every state of a crawl and for every URL, the requests that went to the URL
  are: none; or the first request of one \<open>checkUrl\<close> call; or that request followed by
  the one full request of the same call. A URL that has been requested is in the
  visited set. A task that passes the admission check and finds its URL not visited
  puts it into the visited set in the same step that issues the request; every task
  that starts on a URL already visited issues no request and only adds its referrer
  (when it has one) to the sources of the URL: the referrer is in the set afterwards,
  what was in the set stays there, and no record is rewritten.
\<close>

theorem fetched_at_most_once:
  assumes "reachable K s"
  shows "(requestsFor u (net s) = [] \<or> requestsFor u (net s) = [Initial HEAD u]
            \<or> requestsFor u (net s) = [Initial HEAD u, Escalated u]) \<and>
         (requestsFor u (net s) \<noteq> [] \<longrightarrow> u \<in> visitedUrls s) \<and>
         (\<forall>i it now. i < length (tasks s) \<and> tasks s ! i = (it, Start) \<and> url it = u \<and>
             shouldCrawlUrl K u (depth it) \<and> u \<notin> visitedUrls s \<longrightarrow>
             (\<exists>s'. exec K (Resume i now) s = Some s' \<and> u \<in> visitedUrls s' \<and>
                   net s' = net s @ [Initial HEAD u])) \<and>
         (\<forall>i it now. i < length (tasks s) \<and> tasks s ! i = (it, Start) \<and> url it = u \<and>
             u \<in> visitedUrls s \<longrightarrow>
             (\<exists>s'. exec K (Resume i now) s = Some s' \<and> net s' = net s \<and>
                   visitedUrls s' = visitedUrls s \<and> queue s' = queue s \<and>
                   redis s' = (if referrer it \<noteq> [] then addSource u (referrer it) (redis s)
                               else redis s) \<and>
                   (referrer it \<noteq> [] \<longrightarrow> referrer it \<in> sources (redis s') u) \<and>
                   sources (redis s) u \<subseteq> sources (redis s') u \<and>
                   hashes (redis s') = hashes (redis s)))"
proof -
  from assms have inv: "requestInv s" and dep: "depthInv K s"
    using reachable_invariants by blast+
  have a: "requestsFor u (net s) = [] \<or> requestsFor u (net s) = [Initial HEAD u]
            \<or> requestsFor u (net s) = [Initial HEAD u, Escalated u]"
    using inv unfolding requestInv_def by blast
  have b: "requestsFor u (net s) \<noteq> [] \<longrightarrow> u \<in> visitedUrls s"
    using inv unfolding requestInv_def by blast
  have c: "\<forall>i it now. i < length (tasks s) \<and> tasks s ! i = (it, Start) \<and> url it = u \<and>
             shouldCrawlUrl K u (depth it) \<and> u \<notin> visitedUrls s \<longrightarrow>
             (\<exists>s'. exec K (Resume i now) s = Some s' \<and> u \<in> visitedUrls s' \<and>
                   net s' = net s @ [Initial HEAD u])"
    by (auto simp: exec_Resume resume_fresh request_def claim_def)
  have admitted: "shouldCrawlUrl K u (depth it)"
    if t: "i < length (tasks s)" "tasks s ! i = (it, Start)" and v: "u \<in> visitedUrls s"
    for i it
  proof -
    have "it \<in> items s"
      using t by (metis fst_conv image_eqI items_def UnI2 nth_mem)
    then have "depth it \<le> maxDepth (config K) \<or> depth it = 0"
      using dep unfolding depthInv_def by blast
    moreover have "0 \<le> maxDepth (config K) \<and> \<not> isUrlExcluded K u \<and>
         \<not> (skipDataImages (config K) \<and> startsWith u ''data:image'')"
      using dep v unfolding depthInv_def by blast
    ultimately show ?thesis unfolding shouldCrawlUrl_iff by auto
  qed
  have d: "\<forall>i it now. i < length (tasks s) \<and> tasks s ! i = (it, Start) \<and> url it = u \<and>
             u \<in> visitedUrls s \<longrightarrow>
             (\<exists>s'. exec K (Resume i now) s = Some s' \<and> net s' = net s \<and>
                   visitedUrls s' = visitedUrls s \<and> queue s' = queue s \<and>
                   redis s' = (if referrer it \<noteq> [] then addSource u (referrer it) (redis s)
                               else redis s) \<and>
                   (referrer it \<noteq> [] \<longrightarrow> referrer it \<in> sources (redis s') u) \<and>
                   sources (redis s) u \<subseteq> sources (redis s') u \<and>
                   hashes (redis s') = hashes (redis s))"
  proof (intro allI impI)
    fix i it now
    assume h: "i < length (tasks s) \<and> tasks s ! i = (it, Start) \<and> url it = u \<and> u \<in> visitedUrls s"
    then have "shouldCrawlUrl K (url it) (depth it)" using admitted [of i it] by simp
    with h show "\<exists>s'. exec K (Resume i now) s = Some s' \<and> net s' = net s \<and>
                   visitedUrls s' = visitedUrls s \<and> queue s' = queue s \<and>
                   redis s' = (if referrer it \<noteq> [] then addSource u (referrer it) (redis s)
                               else redis s) \<and>
                   (referrer it \<noteq> [] \<longrightarrow> referrer it \<in> sources (redis s') u) \<and>
                   sources (redis s) u \<subseteq> sources (redis s') u \<and>
                   hashes (redis s') = hashes (redis s)"
      by (auto simp: exec_Resume resume_visited finish_def mergeReferrer_def addSource_def)
  qed
  from a b c d show ?thesis by blast
qed

theorem fetched_at_most_once_witness:
  "case run exampleCrawler discoveredTwice (init exampleCrawler) of
     None \<Rightarrow> False
   | Some s \<Rightarrow>
       reachable exampleCrawler s \<and>
       requestsFor ''http://ex.com/about'' (net s) = [Initial HEAD ''http://ex.com/about''] \<and>
       ''http://ex.com/about'' \<in> visitedUrls s \<and>
       (\<exists>s'. exec exampleCrawler (Resume 2 ''t5'') s = Some s' \<and> net s' = net s \<and>
             redis s' = addSource ''http://ex.com/about'' ''http://ex.com'' (redis s) \<and>
             ''http://ex.com'' \<in> sources (redis s') ''http://ex.com/about'' \<and>
             hashes (redis s') = hashes (redis s))"
proof -
  let ?u = "''http://ex.com/about''"
  let ?it = "\<lparr>url = ?u, referrer = ''http://ex.com'', depth = 1, sourcePages = [''http://ex.com'']\<rparr>"
  obtain s where run: "run exampleCrawler discoveredTwice (init exampleCrawler) = Some s"
    and t: "tasks s ! 2 = (?it, Start)" "length (tasks s) = 3"
    and v: "visitedUrls s = {?u, ''http://ex.com''}"
    and n: "net s = [Initial HEAD ''http://ex.com'', Escalated ''http://ex.com'', Initial HEAD ?u]"
    using discoveredTwice_run by blast
  have reach: "reachable exampleCrawler s"
    using reachable.start run by (rule run_reachable)
  have req: "requestsFor ?u (net s) = [Initial HEAD ?u]"
    by (simp add: n requestsFor_def)
  have pre: "2 < length (tasks s) \<and> tasks s ! 2 = (?it, Start) \<and> url ?it = ?u \<and>
             ?u \<in> visitedUrls s"
    using t v by simp
  from fetched_at_most_once [OF reach, of ?u] pre
  have "\<exists>s'. exec exampleCrawler (Resume 2 ''t5'') s = Some s' \<and> net s' = net s \<and>
             visitedUrls s' = visitedUrls s \<and> queue s' = queue s \<and>
             redis s' = (if referrer ?it \<noteq> [] then addSource ?u (referrer ?it) (redis s) else redis s) \<and>
             (referrer ?it \<noteq> [] \<longrightarrow> referrer ?it \<in> sources (redis s') ?u) \<and>
             sources (redis s) ?u \<subseteq> sources (redis s') ?u \<and>
             hashes (redis s') = hashes (redis s)"
    by blast
  then have "\<exists>s'. exec exampleCrawler (Resume 2 ''t5'') s = Some s' \<and> net s' = net s \<and>
             redis s' = addSource ?u ''http://ex.com'' (redis s) \<and>
             ''http://ex.com'' \<in> sources (redis s') ?u \<and>
             hashes (redis s') = hashes (redis s)"
    by auto
  with reach req v show ?thesis by (simp add: run)
qed

section \<open>Excluded URLs\<close>

text \<open>
  C2, as amended. A URL whose path starts with an exclusion prefix is never put into
  the visited set and never requested, and the \<open>checkUrl\<close> call for it ends at the
  admission check without writing to the database, without a request and without
  touching the queue.
\<close>

theorem excluded_url_never_admitted:
  assumes "reachable K s" "isUrlExcluded K u"
  shows "u \<notin> visitedUrls s \<and> requestsFor u (net s) = [] \<and>
         (\<forall>i it now. i < length (tasks s) \<and> tasks s ! i = (it, Start) \<and> url it = u \<longrightarrow>
            (\<exists>s'. exec K (Resume i now) s = Some s' \<and> redis s' = redis s \<and> net s' = net s \<and>
                  visitedUrls s' = visitedUrls s \<and> queue s' = queue s))"
proof -
  from assms(1) have inv: "admittedInv K s" "requestInv s" using reachable_invariants by blast+
  have a: "u \<notin> visitedUrls s" using inv(1) assms(2) unfolding admittedInv_def by blast
  then have b: "requestsFor u (net s) = []" using inv(2) unfolding requestInv_def by blast
  have "\<And>d. \<not> shouldCrawlUrl K u d" using assms(2) by (simp add: shouldCrawlUrl_def)
  then have c: "\<forall>i it now. i < length (tasks s) \<and> tasks s ! i = (it, Start) \<and> url it = u \<longrightarrow>
            (\<exists>s'. exec K (Resume i now) s = Some s' \<and> redis s' = redis s \<and> net s' = net s \<and>
                  visitedUrls s' = visitedUrls s \<and> queue s' = queue s)"
    by (auto simp: exec_Resume resume_rejected finish_def)
  from a b c show ?thesis by blast
qed

theorem excluded_url_never_admitted_witness:
  "isUrlExcluded exampleCrawler ''http://ex.com/private/a'' \<and>
   (case run exampleCrawler (fetchSeed privatePage @ [Link 0, Link 0, Timer]) (init exampleCrawler) of
      None \<Rightarrow> False
    | Some s \<Rightarrow>
        reachable exampleCrawler s \<and>
        ''http://ex.com/private/a'' \<notin> visitedUrls s \<and>
        requestsFor ''http://ex.com/private/a'' (net s) = [] \<and>
        (\<exists>s'. exec exampleCrawler (Resume 1 ''t4'') s = Some s' \<and> redis s' = redis s \<and> net s' = net s))"
proof -
  let ?a = "''http://ex.com/private/a''"
  let ?it = "\<lparr>url = ?a, referrer = ''http://ex.com'', depth = 1, sourcePages = [''http://ex.com'']\<rparr>"
  obtain s where run: "run exampleCrawler (fetchSeed privatePage @ [Link 0, Link 0, Timer])
                         (init exampleCrawler) = Some s"
    and t: "length (tasks s) = 3" "tasks s ! 1 = (?it, Start)"
    using privatePage_dispatched by blast
  have reach: "reachable exampleCrawler s"
    using reachable.start run by (rule run_reachable)
  have excl: "isUrlExcluded exampleCrawler ?a" by (rule private_facts(3))
  have pre: "1 < length (tasks s) \<and> tasks s ! 1 = (?it, Start) \<and> url ?it = ?a"
    using t by simp
  from excluded_url_never_admitted [OF reach excl] pre
  have "?a \<notin> visitedUrls s \<and> requestsFor ?a (net s) = [] \<and>
        (\<exists>s'. exec exampleCrawler (Resume 1 ''t4'') s = Some s' \<and> redis s' = redis s \<and> net s' = net s)"
    by blast
  with reach excl show ?thesis by (simp add: run)
qed

text \<open>
  C2 as stated fails: the seed page links to \<open>/private/a\<close>, whose path starts with the
  excluded prefix \<open>/private\<close>; after the first round of the link loop the URL has a hash,
  is in \<open>all_urls\<close>, in the sets of type \<open>link\<close> and of status 0, and has the seed among
  its sources.
\<close>

theorem excluded_url_recorded_counterexample:
  "isUrlExcluded exampleCrawler ''http://ex.com/private/a'' \<and>
   (case run exampleCrawler (fetchSeed privatePage @ [Link 0]) (init exampleCrawler) of
      None \<Rightarrow> False
    | Some s \<Rightarrow>
        hashes (redis s) ''http://ex.com/private/a'' \<noteq> None \<and>
        ''http://ex.com/private/a'' \<in> all_urls (redis s) \<and>
        ''http://ex.com/private/a'' \<in> typeIndex (redis s) ''link'' \<and>
        ''http://ex.com/private/a'' \<in> statusIndex (redis s) (Num 0) \<and>
        ''http://ex.com'' \<in> sources (redis s) ''http://ex.com/private/a'')"
proof -
  let ?a = "''http://ex.com/private/a''"
  let ?la = "\<lparr>l_url = ?a, l_tag = ''a'', l_text = ''A'', l_alt = []\<rparr>"
  let ?lb = "\<lparr>l_url = ''http://ex.com/private/b'', l_tag = ''a'', l_text = ''B'', l_alt = []\<rparr>"
  obtain s where run: "run exampleCrawler (fetchSeed privatePage) (init exampleCrawler) = Some s"
    and t: "tasks s = [(seedItem, Extract [?la, ?lb])]"
    using privatePage_extracting by blast
  let ?s' = "handleLink exampleCrawler 0 seedItem ?la [?lb] s"
  have ex: "exec exampleCrawler (Link 0) s = Some ?s'"
    by (simp add: exec_def t)
  have red: "redis ?s' = storeResult ?a (stubRecord exampleCrawler seedItem ?la) (redis s)"
    by (simp add: handleLink_def nextRound_def storeIn_def push_def)
  have ty: "getAssetType ?a ''a'' = LINK" by (simp add: getAssetType_def)
  have "hashes (redis ?s') ?a \<noteq> None"
    using storeResult_field [of "stubRecord exampleCrawler seedItem ?la" "''status''" "Num 0" ?a "redis s"]
    by (auto simp: red stubRecord_fields private_fixed)
  moreover have "?a \<in> all_urls (redis ?s')"
    by (simp add: red private_fixed)
  moreover have "?a \<in> typeIndex (redis ?s') ''link''"
    using storeResult_type [of "stubRecord exampleCrawler seedItem ?la" "''link''" ?a "redis s"]
    by (simp add: red stubRecord_fields private_fixed ty)
  moreover have "?a \<in> statusIndex (redis ?s') (Num 0)"
    using storeResult_status [of "stubRecord exampleCrawler seedItem ?la" "Num 0" ?a "redis s"]
    by (simp add: red stubRecord_fields private_fixed)
  moreover have "''http://ex.com'' \<in> sources (redis ?s') ?a"
    using storeResult_referrer [of "stubRecord exampleCrawler seedItem ?la" "''http://ex.com''" ?a "redis s"]
    by (simp add: red stubRecord_fields private_fixed seedItem_url)
  ultimately show ?thesis
    using private_facts(3) by (simp add: run_append run ex)
qed

section \<open>Data URLs\<close>

text \<open>
  C4 says that a \<open>data:image\<close> URL gets a record with status 200 when \<open>skipDataImages\<close>
  is set. In the code \<open>checkUrl\<close> on such a URL stops at the admission check: nothing
  is written to the database, the URL is not marked visited, and no request is made.
  The branch of \<open>checkUrl\<close> that would store the record lies behind the admission check
  that rejects the URL.
\<close>

theorem data_image_not_recorded:
  assumes "skipDataImages (config K)" "startsWith (url it) ''data:image''"
    and "i < length (tasks s)" "tasks s ! i = (it, Start)"
  shows "\<exists>s'. exec K (Resume i now) s = Some s' \<and> redis s' = redis s \<and> net s' = net s \<and>
              visitedUrls s' = visitedUrls s \<and> queue s' = queue s"
proof -
  have "\<not> shouldCrawlUrl K (url it) (depth it)"
    using assms(1,2) by (simp add: shouldCrawlUrl_def)
  then show ?thesis
    using assms(3,4) by (simp add: exec_Resume resume_rejected finish_def)
qed

theorem data_image_not_recorded_witness:
  "skipDataImages (config dataImageCrawler) \<and>
   startsWith ''data:image/png;base64,AAAA'' ''data:image'' \<and>
   (case run dataImageCrawler [Timer] (init dataImageCrawler) of
      None \<Rightarrow> False
    | Some s \<Rightarrow>
        (\<exists>s'. exec dataImageCrawler (Resume 0 ''t1'') s = Some s' \<and>
              hashes (redis s') ''data:image/png;base64,AAAA'' = None \<and>
              all_urls (redis s') = {} \<and> net s' = [] \<and> visitedUrls s' = {}))"
proof -
  let ?u = "''data:image/png;base64,AAAA''"
  let ?it = "\<lparr>url = ?u, referrer = [], depth = 0, sourcePages = []\<rparr>"
  obtain s where run: "run dataImageCrawler [Timer] (init dataImageCrawler) = Some s"
    and t: "tasks s = [(?it, Start)]" and e: "redis s = emptyStore" "net s = []" "visitedUrls s = {}"
    using dataImageCrawler_started by blast
  have skip: "skipDataImages (config dataImageCrawler)"
    by (simp add: dataImageCrawler_def exampleConfig_def)
  have pre: "startsWith ?u ''data:image''" by code_simp
  have "\<exists>s'. exec dataImageCrawler (Resume 0 ''t1'') s = Some s' \<and> redis s' = redis s \<and>
          net s' = net s \<and> visitedUrls s' = visitedUrls s \<and> queue s' = queue s"
    using data_image_not_recorded [of dataImageCrawler ?it 0 s "''t1''"] skip pre t by simp
  then have "\<exists>s'. exec dataImageCrawler (Resume 0 ''t1'') s = Some s' \<and>
              hashes (redis s') ?u = None \<and> all_urls (redis s') = {} \<and> net s' = [] \<and> visitedUrls s' = {}"
    using e by (auto simp: emptyStore_def)
  with skip pre show ?thesis unfolding run by simp
qed

section \<open>Outbound links\<close>





section \<open>The summary\<close>

text \<open>
  The guard of \<open>processQueue\<close>: the summary is generated only by a call of
  \<open>processQueue\<close> that finds the queue empty and no task active.
\<close>

lemma summary_only_when_idle:
  assumes "exec K ev s = Some s'" "summaries s' \<noteq> summaries s"
  shows "ev = Timer \<and> queue s = [] \<and> activeTasks s = 0 \<and> summaries s' = Suc (summaries s)"
  using assms(1)
proof (cases rule: exec_cases)
  case Timer
  with assms(2) show ?thesis
    by (auto simp: processQueue_def split: if_splits prod.splits)
next
  case (Resume i now it)
  with assms(2) show ?thesis
    by (auto simp: resume_def finish_def mergeReferrer_def claim_def storeIn_def request_def split: if_splits)
next
  case (Response i r now it m)
  with assms(2) show ?thesis
    by (auto simp: respond_def afterFetch_def startLoop_def finish_def storeIn_def split: if_splits list.splits)
next
  case (Full i r now it r0)
  with assms(2) show ?thesis
    by (auto simp: respondFull_def afterFetch_def startLoop_def finish_def storeIn_def split: if_splits list.splits)
next
  case (Failure i e now it)
  with assms(2) show ?thesis by (simp add: fail_def finish_def storeIn_def)
next
  case (Link i it l ls)
  with assms(2) show ?thesis
    by (auto simp: handleLink_def nextRound_def push_def finish_def storeIn_def split: if_splits list.splits)
qed

text \<open>
  C7 says that the summary is generated exactly once. In a crawl of the example site
  it is generated twice: the seed page has two links, both tasks are started together
  and both end at the admission check before a timer fires; each has scheduled
  \<open>processQueue\<close>, and each of the two calls finds the queue empty and no task active.
\<close>

theorem summary_generated_twice:
  "(case run exampleCrawler twoExcludedLinks (init exampleCrawler) of
      None \<Rightarrow> 0
    | Some s \<Rightarrow> summaries s) = 2"
  using twoExcludedLinks_run by auto

section \<open>Exceptions\<close>



section \<open>Stub records\<close>

text \<open>
  C10. When the page of a task is HTML, inbound and above the depth limit, the task
  goes through all the links that \<open>extractLinks\<close> finds in it; and each round of that
  loop, whatever the link (no admission check is made), stores a record under the
  link's URL with an empty \<open>checkedAt\<close>, status 0 and the page as referrer, adds the URL
  to \<open>all_urls\<close> and adds the page's URL (unless it is the empty text) to the sources of
  the link's URL; then the loop goes on with the remaining links.
\<close>

theorem stub_stored_for_every_link:
  "(i < length (tasks s) \<and> isHtmlResponse r \<and> isInboundLink K (url it) \<and>
      depth it < maxDepth (config K) \<longrightarrow>
      tasks (afterFetch K i it r now s) ! i =
        (it, case extractLinks K (body r) (url it) of [] \<Rightarrow> Finished | l # ls \<Rightarrow> Extract (l # ls))) \<and>
   (i < length (tasks s) \<and> tasks s ! i = (it, Extract (l # ls)) \<longrightarrow>
      (\<exists>s' h. exec K (Link i) s = Some s' \<and>
         hashes (redis s') (fixProtocolRelativeUrl (l_url l)) = Some h \<and>
         h ''checkedAt'' = Some (Str []) \<and> h ''status'' = Some (Num 0) \<and>
         h ''referrer'' = Some (Str (url it)) \<and>
         fixProtocolRelativeUrl (l_url l) \<in> all_urls (redis s') \<and>
         (url it \<noteq> [] \<longrightarrow> url it \<in> sources (redis s') (fixProtocolRelativeUrl (l_url l))) \<and>
         tasks s' ! i = (it, case ls of [] \<Rightarrow> Finished | _ # _ \<Rightarrow> Extract ls)))"
proof (intro conjI impI)
  assume "i < length (tasks s) \<and> isHtmlResponse r \<and> isInboundLink K (url it) \<and>
      depth it < maxDepth (config K)"
  then show "tasks (afterFetch K i it r now s) ! i =
        (it, case extractLinks K (body r) (url it) of [] \<Rightarrow> Finished | l # ls \<Rightarrow> Extract (l # ls))"
    by (simp add: afterFetch_def startLoop_def finish_def storeIn_def split: list.splits)
next
  assume a: "i < length (tasks s) \<and> tasks s ! i = (it, Extract (l # ls))"
  let ?s' = "handleLink K i it l ls s"
  let ?u = "fixProtocolRelativeUrl (l_url l)"
  have ex: "exec K (Link i) s = Some ?s'" using a by (simp add: exec_Link)
  have red: "redis ?s' = storeResult (l_url l) (stubRecord K it l) (redis (push K it l s))"
    by (simp add: handleLink_def nextRound_def storeIn_def finish_def split: list.splits)
  have hs: "hashes (redis ?s') ?u =
      Some (case hashes (redis (push K it l s)) ?u of
              None \<Rightarrow> processedData (withStatus (stubRecord K it l))
            | Some h \<Rightarrow> h ++ processedData (withStatus (stubRecord K it l)))"
    by (simp add: red storeResult_hashes)
  define h where "h = (case hashes (redis (push K it l s)) ?u of
              None \<Rightarrow> processedData (withStatus (stubRecord K it l))
            | Some h \<Rightarrow> h ++ processedData (withStatus (stubRecord K it l)))"
  have f: "h ''checkedAt'' = Some (Str [])" "h ''status'' = Some (Num 0)"
      "h ''referrer'' = Some (Str (url it))"
    by (simp_all add: h_def processedData_def stubRecord_fields map_add_def split: option.splits)
  have au: "?u \<in> all_urls (redis ?s')" by (simp add: red)
  have src: "url it \<noteq> [] \<longrightarrow> url it \<in> sources (redis ?s') ?u"
    using storeResult_referrer [of "stubRecord K it l" "url it" "l_url l" "redis (push K it l s)"]
    by (simp add: red stubRecord_fields)
  have tk: "tasks ?s' ! i = (it, case ls of [] \<Rightarrow> Finished | _ # _ \<Rightarrow> Extract ls)"
    using a by (simp add: handleLink_def nextRound_def storeIn_def finish_def push_def split: list.splits)
  from ex hs f au src tk
  show "\<exists>s' h. exec K (Link i) s = Some s' \<and>
         hashes (redis s') ?u = Some h \<and>
         h ''checkedAt'' = Some (Str []) \<and> h ''status'' = Some (Num 0) \<and>
         h ''referrer'' = Some (Str (url it)) \<and>
         ?u \<in> all_urls (redis s') \<and>
         (url it \<noteq> [] \<longrightarrow> url it \<in> sources (redis s') ?u) \<and>
         tasks s' ! i = (it, case ls of [] \<Rightarrow> Finished | _ # _ \<Rightarrow> Extract ls)"
    unfolding h_def by blast
qed

theorem stub_stored_for_every_link_witness:
  "\<not> shouldCrawlUrl exampleCrawler ''http://ex.com/private/a'' 1 \<and>
   (case run exampleCrawler (fetchSeed privatePage) (init exampleCrawler) of
      None \<Rightarrow> False
    | Some s \<Rightarrow>
        (\<exists>ls. tasks s ! 0 =
           (seedItem, Extract (\<lparr>l_url = ''http://ex.com/private/a'', l_tag = ''a'', l_text = ''A'',
                                 l_alt = []\<rparr> # ls))) \<and>
        (\<exists>s' h. exec exampleCrawler (Link 0) s = Some s' \<and>
           hashes (redis s') ''http://ex.com/private/a'' = Some h \<and>
           h ''checkedAt'' = Some (Str []) \<and>
           ''http://ex.com/private/a'' \<in> all_urls (redis s') \<and>
           ''http://ex.com'' \<in> sources (redis s') ''http://ex.com/private/a''))"
proof -
  let ?a = "''http://ex.com/private/a''"
  let ?la = "\<lparr>l_url = ?a, l_tag = ''a'', l_text = ''A'', l_alt = []\<rparr>"
  let ?lb = "\<lparr>l_url = ''http://ex.com/private/b'', l_tag = ''a'', l_text = ''B'', l_alt = []\<rparr>"
  obtain s where run: "run exampleCrawler (fetchSeed privatePage) (init exampleCrawler) = Some s"
    and t: "tasks s = [(seedItem, Extract [?la, ?lb])]"
    using privatePage_extracting by blast
  have pre: "0 < length (tasks s) \<and> tasks s ! 0 = (seedItem, Extract (?la # [?lb]))"
    using t by simp
  from stub_stored_for_every_link
         [where i = 0 and s = s and K = exampleCrawler and it = seedItem and l = ?la and ls = "[?lb]"] pre
  have "\<exists>s' h. exec exampleCrawler (Link 0) s = Some s' \<and>
         hashes (redis s') (fixProtocolRelativeUrl (l_url ?la)) = Some h \<and>
         h ''checkedAt'' = Some (Str []) \<and>
         fixProtocolRelativeUrl (l_url ?la) \<in> all_urls (redis s') \<and>
         (url seedItem \<noteq> [] \<longrightarrow> url seedItem \<in> sources (redis s') (fixProtocolRelativeUrl (l_url ?la)))"
    by blast
  then have "\<exists>s' h. exec exampleCrawler (Link 0) s = Some s' \<and>
           hashes (redis s') ?a = Some h \<and> h ''checkedAt'' = Some (Str []) \<and>
           ?a \<in> all_urls (redis s') \<and> ''http://ex.com'' \<in> sources (redis s') ?a"
    by (simp add: private_fixed seedItem_url)
  with pre private_facts(5) show ?thesis unfolding run by simp
qed

end
